theory Spec2Isabelle
  imports Complex_Main
begin

section \<open>Points and quadratures\<close>

text \<open>
  The C++ type \<^verbatim>\<open>double\<close> is modelled by \<^typ>\<open>real\<close>: arithmetic is exact, and
  rounding, infinities and NaN are outside the model. A \<^verbatim>\<open>Point<spacedim>\<close> is the
  list of its \<^verbatim>\<open>spacedim\<close> coordinates. The template parameter \<^verbatim>\<open>spacedim\<close> is
  an explicit argument; the parameter \<^verbatim>\<open>dim\<close> occurs in no function body of
  \<^verbatim>\<open>manifold_lib.cc\<close> and is left out.
\<close>

type_synonym point = "real list"

text \<open>
  Modelled from the spec: the class \<^verbatim>\<open>Point\<close> (\<^verbatim>\<open>base/point.h\<close>) is not among the
  sources. The spec describes it as a fixed-size vector of real coordinates with
  component-wise addition and scaling and the Euclidean norm; its default constructor
  gives the origin.
\<close>

definition Point :: "nat \<Rightarrow> point" where
  "Point spacedim = replicate spacedim 0"

definition pt_add :: "point \<Rightarrow> point \<Rightarrow> point" where
  "pt_add p q = map2 (+) p q"

definition pt_sub :: "point \<Rightarrow> point \<Rightarrow> point" where
  "pt_sub p q = map2 (-) p q"

definition pt_scale :: "real \<Rightarrow> point \<Rightarrow> point" where
  "pt_scale a p = map ((*) a) p"

definition pt_norm :: "point \<Rightarrow> real" where
  "pt_norm p = sqrt (sum_list (map (\<lambda>x. x * x) p))"

text \<open>
  A \<^verbatim>\<open>Quadrature<spacedim>\<close> holds as many weights as points; \<^verbatim>\<open>quad.weight(i)\<close>
  and \<^verbatim>\<open>quad.point(i)\<close> are the components of the \<open>i\<close>-th pair.
\<close>

type_synonym quadrature = "(real \<times> point) list"

section \<open>The spherical manifold\<close>

text \<open>
  The exceptions of the assertions of \<^verbatim>\<open>manifold_lib.cc\<close>, and one more outcome:
  \<open>NotANumber\<close> is raised nowhere in the code. It is the result of a call that divides by
  zero: the call returns normally, IEEE arithmetic makes the quotient an infinity or NaN,
  and no real number is the result. The last six are the exceptions of the grid
  generator: the three that \<^verbatim>\<open>grid_generator.h\<close> declares, and one for each further
  failure the spec lists (not implemented, triangulation not empty, constraint on a
  vertex that does not exist).
\<close>

datatype error =
    ExcImpossibleInDim nat
  | ExcMessage string
  | ExcInternalError
  | ExcIndexRange nat nat
  | NotANumber
  | ExcInvalidRadii
  | ExcInvalidRepetitions nat
  | ExcInvalidRepetitionsDimension nat
  | ExcNotImplemented
  | ExcTriaNotEmpty
  | ExcInvalidVertex nat

record SphericalManifold =
  spacedim :: nat
  center :: point
  periodicity :: point

text \<open>
  \<^verbatim>\<open>SphericalManifold::get_periodicity\<close>: a default (zero) point whose last
  coordinate is set to \<open>2\<pi>\<close>.
\<close>

definition get_periodicity :: "nat \<Rightarrow> point" where
  "get_periodicity sd = (Point sd)[sd - 1 := 2 * pi]"

text \<open>
  The constructor. \<^verbatim>\<open>Assert\<close> is modelled as it behaves in a debug build: a failed
  assertion ends the call with the given exception.
\<close>

definition SphericalManifold_ctor :: "nat \<Rightarrow> point \<Rightarrow> error + SphericalManifold" where
  "SphericalManifold_ctor sd c =
     (if sd = 1 then Inl (ExcImpossibleInDim 1)
      else Inr \<lparr>spacedim = sd, center = c, periodicity = get_periodicity sd\<rparr>)"

text \<open>
  \<^verbatim>\<open>SphericalManifold::push_forward\<close>. Reading \<^verbatim>\<open>spherical_point[1]\<close> needs at least
  two coordinates (the index check of \<^verbatim>\<open>Point\<close> fails otherwise). The \<^verbatim>\<open>switch\<close> on
  \<^verbatim>\<open>spacedim\<close> is only reached when \<^verbatim>\<open>rho > 1e-10\<close>.
\<close>

definition push_forward :: "SphericalManifold \<Rightarrow> point \<Rightarrow> error + point" where
  "push_forward M spherical_point =
     (if \<not> spherical_point ! 0 \<ge> 0 then Inl (ExcMessage ''Negative radius for given point.'')
      else if spacedim M < 2 then Inl (ExcIndexRange 1 (spacedim M))
      else
        let rho = spherical_point ! 0;
            theta = spherical_point ! 1;
            p = Point (spacedim M)
        in if rho > 1 / 10 ^ 10 then
             (if spacedim M = 2 then
                Inr (pt_add (p[0 := rho * cos theta, 1 := rho * sin theta]) (center M))
              else if spacedim M = 3 then
                (let phi = spherical_point ! 2
                 in Inr (pt_add (p[0 := rho * sin theta * cos phi,
                                   1 := rho * sin theta * sin phi,
                                   2 := rho * cos theta]) (center M)))
              else Inl ExcInternalError)
           else Inr (pt_add p (center M)))"

text \<open>
  The C library function \<^verbatim>\<open>atan2(y, x)\<close> on real numbers: the angle in \<open>(-\<pi>, \<pi>]\<close> of
  the point \<open>(x, y)\<close>, and 0 at the origin.
\<close>

definition atan2 :: "real \<Rightarrow> real \<Rightarrow> real" where
  "atan2 y x =
     (if 0 < x then arctan (y / x)
      else if x < 0 then (if 0 \<le> y then arctan (y / x) + pi else arctan (y / x) - pi)
      else if 0 < y then pi / 2
      else if y < 0 then - (pi / 2)
      else 0)"

text \<open>
  \<^verbatim>\<open>SphericalManifold::pull_back\<close>. The assignments to \<^verbatim>\<open>p\<close> are kept in the order
  of the source.
\<close>

definition pull_back :: "SphericalManifold \<Rightarrow> point \<Rightarrow> error + point" where
  "pull_back M space_point =
     (if spacedim M < 2 then Inl (ExcIndexRange 1 (spacedim M))
      else
        let R = pt_sub space_point (center M);
            rho = pt_norm R;
            x = R ! 0;
            y = R ! 1;
            p = (Point (spacedim M))[0 := rho]
        in if spacedim M = 2 then
             (let p = p[1 := atan2 y x];
                  p = (if p ! 1 < 0 then p[1 := p ! 1 + 2 * pi] else p)
              in Inr p)
           else if spacedim M = 3 then
             (let z = R ! 2;
                  p = p[2 := atan2 y x];
                  p = (if p ! 2 < 0 then p[2 := p ! 2 + 2 * pi] else p);
                  p = p[1 := atan2 (sqrt (x * x + y * y)) z]
              in Inr p)
           else Inl ExcInternalError)"

text \<open>
  Modelled from the spec: \<^verbatim>\<open>ManifoldChart::get_new_point\<close>, the generic chart rule of
  the base class, is not among the sources. The spec: pull each point back, take the
  weighted average in chart space, push forward the average.
\<close>

fun pull_back_all :: "SphericalManifold \<Rightarrow> quadrature \<Rightarrow> error + quadrature" where
  "pull_back_all M [] = Inr []"
| "pull_back_all M ((w, q) # quad) =
     (case pull_back M q of
        Inl e \<Rightarrow> Inl e
      | Inr cp \<Rightarrow>
          (case pull_back_all M quad of
             Inl e \<Rightarrow> Inl e
           | Inr cquad \<Rightarrow> Inr ((w, cp) # cquad)))"

fun chart_average :: "quadrature \<Rightarrow> point \<Rightarrow> point" where
  "chart_average [] avg = avg"
| "chart_average ((w, cp) # cquad) avg = chart_average cquad (pt_add avg (pt_scale w cp))"

definition ManifoldChart_get_new_point :: "SphericalManifold \<Rightarrow> quadrature \<Rightarrow> error + point" where
  "ManifoldChart_get_new_point M quad =
     (case pull_back_all M quad of
        Inl e \<Rightarrow> Inl e
      | Inr cquad \<Rightarrow> push_forward M (chart_average cquad (Point (spacedim M))))"

text \<open>
  \<^verbatim>\<open>SphericalManifold::get_new_point\<close>. The loop over the quadrature carries the two
  accumulators \<^verbatim>\<open>rho_average\<close> and \<^verbatim>\<open>mid_point\<close>. The quotient
  \<^verbatim>\<open>rho_average/R.norm()\<close> is taken without a test of the divisor; where the divisor
  is zero the result is \<open>NotANumber\<close>.
\<close>

fun get_new_point_loop :: "point \<Rightarrow> quadrature \<Rightarrow> real \<times> point \<Rightarrow> real \<times> point" where
  "get_new_point_loop c [] acc = acc"
| "get_new_point_loop c ((w, q) # quad) (rho_average, mid_point) =
     get_new_point_loop c quad
       (rho_average + w * pt_norm (pt_sub q c), pt_add mid_point (pt_scale w q))"

definition get_new_point :: "SphericalManifold \<Rightarrow> quadrature \<Rightarrow> error + point" where
  "get_new_point M quad =
     (if spacedim M = 2 then ManifoldChart_get_new_point M quad
      else
        let (rho_average, mid_point) = get_new_point_loop (center M) quad (0, Point (spacedim M));
            R = pt_sub mid_point (center M)
        in if pt_norm R = 0 then Inl NotANumber
           else Inr (pt_add (center M) (pt_scale (rho_average / pt_norm R) R)))"

text \<open>
  The three member functions are \<^verbatim>\<open>const\<close>: a call returns its result and leaves the
  object as it was. \<open>invoke\<close> makes the object after the call explicit.
\<close>

datatype call =
    Call_get_new_point quadrature
  | Call_push_forward point
  | Call_pull_back point

fun invoke :: "SphericalManifold \<Rightarrow> call \<Rightarrow> SphericalManifold \<times> (error + point)" where
  "invoke M (Call_get_new_point quad) = (M, get_new_point M quad)"
| "invoke M (Call_push_forward p) = (M, push_forward M p)"
| "invoke M (Call_pull_back q) = (M, pull_back M q)"

fun invoke_all :: "SphericalManifold \<Rightarrow> call list \<Rightarrow> SphericalManifold \<times> (error + point) list" where
  "invoke_all M [] = (M, [])"
| "invoke_all M (c # cs) =
     (case invoke M c of (M', r) \<Rightarrow>
        (case invoke_all M' cs of (M'', rs) \<Rightarrow> (M'', r # rs)))"

text \<open>
  The sums of the spec, for comparison with the loop: the weighted average radius
  \<open>\<rho>\<close>-bar \<open>= \<Sum> w\<^sub>i \<parallel>p\<^sub>i - center\<parallel>\<close> and the weighted average point \<open>m = \<Sum> w\<^sub>i p\<^sub>i\<close>,
  coordinate by coordinate.
\<close>

definition spec_rho_bar :: "point \<Rightarrow> quadrature \<Rightarrow> real" where
  "spec_rho_bar c quad = (\<Sum>(w, q)\<leftarrow>quad. w * pt_norm (pt_sub q c))"

definition spec_weighted_average :: "nat \<Rightarrow> quadrature \<Rightarrow> point" where
  "spec_weighted_average sd quad = map (\<lambda>k. \<Sum>(w, q)\<leftarrow>quad. w * q ! k) [0..<sd]"

definition weights :: "quadrature \<Rightarrow> real list" where
  "weights quad = map fst quad"

definition points_in :: "nat \<Rightarrow> quadrature \<Rightarrow> bool" where
  "points_in sd quad = list_all (\<lambda>(w, q). length q = sd) quad"

text \<open>
  The normalisation of the spec, for comparison with \<open>pull_back\<close>: \<open>2\<pi>\<close> is added when
  the raw \<^verbatim>\<open>atan2\<close> result is negative.
\<close>

definition spec_normalized :: "real \<Rightarrow> real" where
  "spec_normalized a = (if a < 0 then a + 2 * pi else a)"

text \<open>
  The chart points that \<open>pull_back\<close> can return: in two dimensions \<open>(\<rho>, \<theta>)\<close> with
  \<open>0 \<le> \<theta> < 2\<pi>\<close>; in three dimensions \<open>(\<rho>, \<theta>, \<phi>)\<close> with \<open>0 \<le> \<theta> \<le> \<pi>\<close> and
  \<open>0 \<le> \<phi> < 2\<pi>\<close>, where \<open>\<phi> = 0\<close> on the polar axis (\<open>\<theta> = 0\<close> or \<open>\<theta> = \<pi>\<close>).
\<close>

definition canonical_chart_point :: "nat \<Rightarrow> point \<Rightarrow> bool" where
  "canonical_chart_point sd p =
     (length p = sd \<and>
      (if sd = 2 then 0 \<le> p ! 1 \<and> p ! 1 < 2 * pi
       else sd = 3 \<and> 0 \<le> p ! 1 \<and> p ! 1 \<le> pi \<and> 0 \<le> p ! 2 \<and> p ! 2 < 2 * pi \<and>
            ((p ! 1 = 0 \<or> p ! 1 = pi) \<longrightarrow> p ! 2 = 0)))"

section \<open>Triangulations and the grid generator\<close>

text \<open>
  Modelled from the spec: the failure kinds of its error taxonomy, to which the exceptions
  belong. \<open>NotANumber\<close> is no failure of the taxonomy.
\<close>

datatype error_kind =
    InvalidArgument
  | UnsupportedDimension
  | PreconditionViolation
  | NotImplemented
  | InternalInconsistency
  | NoFailure

fun kind_of :: "error \<Rightarrow> error_kind" where
  "kind_of (ExcImpossibleInDim d) = UnsupportedDimension"
| "kind_of (ExcMessage m) = InvalidArgument"
| "kind_of ExcInternalError = InternalInconsistency"
| "kind_of (ExcIndexRange i n) = InternalInconsistency"
| "kind_of NotANumber = NoFailure"
| "kind_of ExcInvalidRadii = InvalidArgument"
| "kind_of (ExcInvalidRepetitions r) = InvalidArgument"
| "kind_of (ExcInvalidRepetitionsDimension d) = InvalidArgument"
| "kind_of ExcNotImplemented = NotImplemented"
| "kind_of ExcTriaNotEmpty = PreconditionViolation"
| "kind_of (ExcInvalidVertex i) = InvalidArgument"

text \<open>
  Modelled from the spec: the triangulation container is not among the sources. The spec's
  data model: vertices are points, a cell is the tuple of the indices of its \<open>2 ^ dim\<close>
  vertices, a boundary face carries a boundary id, a cell carries a material id. A face is
  kept as the list of the indices of its vertices.
\<close>

record face =
  face_vertices :: "nat list"
  boundary_id :: nat

record Triangulation =
  vertices :: "point list"
  cells :: "nat list list"
  faces :: "face list"
  material_ids :: "nat list"

definition void :: Triangulation where
  "void = \<lparr>vertices = [], cells = [], faces = [], material_ids = []\<rparr>"

text \<open>
  Modelled from the spec: a construction routine needs an empty triangulation; otherwise it
  fails and leaves the triangulation as it is. A routine returns the exception, if any,
  and the triangulation after the call.
\<close>

definition create_triangulation :: "Triangulation \<Rightarrow> Triangulation \<Rightarrow> error option \<times> Triangulation" where
  "create_triangulation tria built =
     (if vertices tria \<noteq> [] \<or> cells tria \<noteq> [] then (Some ExcTriaNotEmpty, tria)
      else (None, built))"

text \<open>
  Modelled from the spec: the bodies of \<^verbatim>\<open>hyper_L\<close>, \<^verbatim>\<open>hyper_ball\<close>, \<^verbatim>\<open>hyper_cube_slit\<close> and
  \<^verbatim>\<open>hyper_shell\<close> are not among the sources (\<^verbatim>\<open>grid_generator.h\<close> declares them, one
  overload for each dimension). The checks are the spec's and the header's: each fails in
  one dimension; the ball, the slit domain and the shell are not implemented in three; the
  shell needs \<open>0 < inner_radius < outer_radius\<close>. The spec does not fix the coordinates of
  the cells built for valid parameters: that construction is the argument \<open>build\<close>.
\<close>

definition hyper_L ::
  "(real \<Rightarrow> real \<Rightarrow> Triangulation) \<Rightarrow> nat \<Rightarrow> Triangulation \<Rightarrow> real \<Rightarrow> real \<Rightarrow>
     error option \<times> Triangulation" where
  "hyper_L build dimension tria left right =
     (if dimension = 1 then (Some (ExcImpossibleInDim 1), tria)
      else create_triangulation tria (build left right))"

definition hyper_ball ::
  "(point \<Rightarrow> real \<Rightarrow> Triangulation) \<Rightarrow> nat \<Rightarrow> Triangulation \<Rightarrow> point \<Rightarrow> real \<Rightarrow>
     error option \<times> Triangulation" where
  "hyper_ball build dimension tria origin radius =
     (if dimension = 1 then (Some (ExcImpossibleInDim 1), tria)
      else if dimension = 3 then (Some ExcNotImplemented, tria)
      else create_triangulation tria (build origin radius))"

definition hyper_cube_slit ::
  "(real \<Rightarrow> real \<Rightarrow> bool \<Rightarrow> Triangulation) \<Rightarrow> nat \<Rightarrow> Triangulation \<Rightarrow> real \<Rightarrow> real \<Rightarrow> bool \<Rightarrow>
     error option \<times> Triangulation" where
  "hyper_cube_slit build dimension tria left right colorize =
     (if dimension = 1 then (Some (ExcImpossibleInDim 1), tria)
      else if dimension = 3 then (Some ExcNotImplemented, tria)
      else create_triangulation tria (build left right colorize))"

definition hyper_shell ::
  "(point \<Rightarrow> real \<Rightarrow> real \<Rightarrow> nat \<Rightarrow> Triangulation) \<Rightarrow> nat \<Rightarrow> Triangulation \<Rightarrow> point \<Rightarrow>
     real \<Rightarrow> real \<Rightarrow> nat \<Rightarrow> error option \<times> Triangulation" where
  "hyper_shell build dimension tria origin inner_radius outer_radius n_cells =
     (if dimension = 1 then (Some (ExcImpossibleInDim 1), tria)
      else if \<not> (0 < inner_radius \<and> inner_radius < outer_radius) then (Some ExcInvalidRadii, tria)
      else if dimension = 3 then (Some ExcNotImplemented, tria)
      else create_triangulation tria (build origin inner_radius outer_radius n_cells))"

text \<open>
  Modelled from the spec: the bodies of \<^verbatim>\<open>hyper_rectangle\<close>, \<^verbatim>\<open>subdivided_hyper_rectangle\<close>
  and of the two colorizers are not among the sources. The box with the opposite corners
  \<open>p1\<close> and \<open>p2\<close> is cut into \<open>repetitions[k]\<close> equal cells along axis \<open>k\<close>. Vertices and
  cells are numbered with the first axis running fastest; \<open>multi_indices ns\<close> lists the
  index tuples below the bounds \<open>ns\<close> in that order and \<open>flat_index\<close> is the position of a
  tuple in the list.
\<close>

fun multi_indices :: "nat list \<Rightarrow> nat list list" where
  "multi_indices [] = [[]]"
| "multi_indices (n # ns) = concat (map (\<lambda>rest. map (\<lambda>i. i # rest) [0..<n]) (multi_indices ns))"

fun flat_index :: "nat list \<Rightarrow> nat list \<Rightarrow> nat" where
  "flat_index (n # ns) (i # rest) = i + n * flat_index ns rest"
| "flat_index ns m = 0"

definition grid_point :: "point \<Rightarrow> point \<Rightarrow> nat list \<Rightarrow> nat list \<Rightarrow> point" where
  "grid_point lo hi reps m =
     map (\<lambda>k. lo ! k + real (m ! k) * ((hi ! k - lo ! k) / real (reps ! k))) [0..<length reps]"

text \<open>
  Modelled from the spec: the cells and boundary faces of the box, whose construction is
  not among the sources. The corners of a cell are the cell's index tuple plus an offset
  of 0 or 1 along each axis. The local face \<open>2k\<close> of a cell has the corners with offset 0 along axis \<open>k\<close>, the
  local face \<open>2k + 1\<close> those with offset 1. A face of a cell is a boundary face when no
  cell lies beyond it.
\<close>

definition offsets :: "nat \<Rightarrow> nat list list" where
  "offsets dimension = multi_indices (replicate dimension 2)"

definition vertex_index :: "nat list \<Rightarrow> nat list \<Rightarrow> nat list \<Rightarrow> nat" where
  "vertex_index reps c off = flat_index (map Suc reps) (map2 (+) c off)"

definition face_offsets :: "nat \<Rightarrow> nat \<Rightarrow> nat list list" where
  "face_offsets dimension f = filter (\<lambda>off. off ! (f div 2) = (if odd f then 1 else 0)) (offsets dimension)"

definition at_boundary :: "nat list \<Rightarrow> nat list \<Rightarrow> nat \<Rightarrow> bool" where
  "at_boundary reps c f =
     (if odd f then c ! (f div 2) + 1 = reps ! (f div 2) else c ! (f div 2) = 0)"

definition cell_face :: "nat list \<Rightarrow> nat list \<Rightarrow> nat \<Rightarrow> face" where
  "cell_face reps c f =
     \<lparr>face_vertices = map (vertex_index reps c) (face_offsets (length reps) f), boundary_id = 0\<rparr>"

definition grid :: "point \<Rightarrow> point \<Rightarrow> nat list \<Rightarrow> Triangulation" where
  "grid lo hi reps =
     \<lparr>vertices = map (grid_point lo hi reps) (multi_indices (map Suc reps)),
      cells = map (\<lambda>c. map (vertex_index reps c) (offsets (length reps))) (multi_indices reps),
      faces = concat (map (\<lambda>c. map (cell_face reps c)
                                 (filter (at_boundary reps c) [0..<2 * length reps]))
                          (multi_indices reps)),
      material_ids = replicate (length (multi_indices reps)) 0\<rparr>"

text \<open>
  Modelled from the spec: the body of \<^verbatim>\<open>colorize_hyper_rectangle (tria)\<close> is not among the
  sources. It sees the triangulation only: there is one cell, and its face number \<open>f\<close>
  gets the boundary id \<open>f\<close>.
\<close>

fun number_faces :: "nat \<Rightarrow> face list \<Rightarrow> face list" where
  "number_faces f [] = []"
| "number_faces f (F # Fs) = F\<lparr>boundary_id := f\<rparr> # number_faces (Suc f) Fs"

definition colorize_hyper_rectangle :: "Triangulation \<Rightarrow> Triangulation" where
  "colorize_hyper_rectangle tria = tria\<lparr>faces := number_faces 0 (faces tria)\<rparr>"

text \<open>
  Modelled from the spec: the body of
  \<^verbatim>\<open>colorize_subdivided_hyper_rectangle (tria, p1, p2, epsilon)\<close> is not among the sources.
  With these arguments it goes by position: a face all of whose vertices have their coordinate \<open>k\<close> within \<open>epsilon\<close> of \<open>p1[k]\<close> gets the
  boundary id \<open>2k\<close>, within \<open>epsilon\<close> of \<open>p2[k]\<close> the id \<open>2k + 1\<close>; the axes are tried in
  order.
\<close>

definition face_in_plane :: "Triangulation \<Rightarrow> face \<Rightarrow> nat \<Rightarrow> real \<Rightarrow> real \<Rightarrow> bool" where
  "face_in_plane tria F k x epsilon =
     list_all (\<lambda>i. \<bar>vertices tria ! i ! k - x\<bar> < epsilon) (face_vertices F)"

fun colorize_face :: "Triangulation \<Rightarrow> point \<Rightarrow> point \<Rightarrow> real \<Rightarrow> nat list \<Rightarrow> face \<Rightarrow> face" where
  "colorize_face tria p1 p2 epsilon [] F = F"
| "colorize_face tria p1 p2 epsilon (k # ks) F =
     (if face_in_plane tria F k (p1 ! k) epsilon then F\<lparr>boundary_id := 2 * k\<rparr>
      else if face_in_plane tria F k (p2 ! k) epsilon then F\<lparr>boundary_id := 2 * k + 1\<rparr>
      else colorize_face tria p1 p2 epsilon ks F)"

definition colorize_subdivided_hyper_rectangle ::
  "Triangulation \<Rightarrow> point \<Rightarrow> point \<Rightarrow> real \<Rightarrow> Triangulation" where
  "colorize_subdivided_hyper_rectangle tria p1 p2 epsilon =
     tria\<lparr>faces := map (colorize_face tria p1 p2 epsilon [0..<length p1]) (faces tria)\<rparr>"

text \<open>
  Modelled from the spec: the two routines, whose bodies are not among the sources. The
  corners are first ordered, so that \<open>p1\<close> is the lower one along
  every axis. \<^verbatim>\<open>subdivided_hyper_rectangle\<close> checks the length of \<^verbatim>\<open>repetitions\<close> and then
  its entries, one after the other, before it builds anything; its \<open>epsilon\<close> is a
  hundredth of the smallest cell extent.
\<close>

definition hyper_rectangle ::
  "nat \<Rightarrow> Triangulation \<Rightarrow> point \<Rightarrow> point \<Rightarrow> bool \<Rightarrow> error option \<times> Triangulation" where
  "hyper_rectangle dimension tria p_1 p_2 colorize =
     (let p1 = map2 min p_1 p_2;
          p2 = map2 max p_1 p_2;
          built = grid p1 p2 (replicate dimension 1)
      in create_triangulation tria (if colorize then colorize_hyper_rectangle built else built))"

definition subdivided_hyper_rectangle ::
  "nat \<Rightarrow> Triangulation \<Rightarrow> nat list \<Rightarrow> point \<Rightarrow> point \<Rightarrow> bool \<Rightarrow> error option \<times> Triangulation" where
  "subdivided_hyper_rectangle dimension tria repetitions p_1 p_2 colorize =
     (if length repetitions \<noteq> dimension then (Some (ExcInvalidRepetitionsDimension dimension), tria)
      else case find (\<lambda>r. \<not> r \<ge> 1) repetitions of
        Some r \<Rightarrow> (Some (ExcInvalidRepetitions r), tria)
      | None \<Rightarrow>
          let p1 = map2 min p_1 p_2;
              p2 = map2 max p_1 p_2;
              delta = map (\<lambda>k. (p2 ! k - p1 ! k) / real (repetitions ! k)) [0..<dimension];
              epsilon = min_list delta / 100;
              built = grid p1 p2 repetitions
          in create_triangulation tria
               (if colorize then colorize_subdivided_hyper_rectangle built p1 p2 epsilon
                else built))"

text \<open>
  The colorization convention of the spec, for comparison with the routines: a boundary
  face at the minimum coordinate \<open>lo[k]\<close> of axis \<open>k\<close> (every vertex of it has that
  coordinate \<open>k\<close>) carries the boundary id \<open>2k\<close>, one at the maximum coordinate \<open>hi[k]\<close> the
  id \<open>2k + 1\<close>; and for every axis there is a face at the minimum with the id \<open>2k\<close> and
  one at the maximum with the id \<open>2k + 1\<close>.
\<close>

definition face_at :: "Triangulation \<Rightarrow> face \<Rightarrow> nat \<Rightarrow> real \<Rightarrow> bool" where
  "face_at tria F k x = list_all (\<lambda>i. vertices tria ! i ! k = x) (face_vertices F)"

definition spec_colorized :: "Triangulation \<Rightarrow> point \<Rightarrow> point \<Rightarrow> bool" where
  "spec_colorized tria lo hi =
     (list_all (\<lambda>F. list_all (\<lambda>k. (face_at tria F k (lo ! k) \<longrightarrow> boundary_id F = 2 * k) \<and>
                                 (face_at tria F k (hi ! k) \<longrightarrow> boundary_id F = 2 * k + 1))
                         [0..<length lo]) (faces tria) \<and>
      list_all (\<lambda>k. list_ex (\<lambda>F. face_vertices F \<noteq> [] \<and> face_at tria F k (lo ! k) \<and>
                                  boundary_id F = 2 * k) (faces tria) \<and>
                     list_ex (\<lambda>F. face_vertices F \<noteq> [] \<and> face_at tria F k (hi ! k) \<and>
                                  boundary_id F = 2 * k + 1) (faces tria))
               [0..<length lo])"

text \<open>
  Modelled from the spec: the body of \<^verbatim>\<open>laplace_transformation\<close> is not among the sources,
  and the assembly of the Laplace matrix and the linear solver are external. The spec: for
  each coordinate axis, solve the discrete Laplace problem whose Dirichlet data is that
  coordinate of the new points, and write the solution into that coordinate of every
  vertex. \<open>assemble\<close> stands for the assembly; \<open>laplace_solve S m u\<close>, declared in
  \<^verbatim>\<open>grid_generator.h\<close>, returns the solution vector for the matrix \<open>S\<close>, the constraints \<open>m\<close>
  and the start vector \<open>u\<close>. The map of new points is a list of pairs of a vertex index
  and a point.
\<close>

definition laplace_transformation ::
  "(Triangulation \<Rightarrow> 's) \<Rightarrow> ('s \<Rightarrow> (nat \<times> real) list \<Rightarrow> real list \<Rightarrow> real list) \<Rightarrow>
     nat \<Rightarrow> Triangulation \<Rightarrow> (nat \<times> point) list \<Rightarrow> error option \<times> Triangulation" where
  "laplace_transformation assemble laplace_solve dimension tria new_points =
     (if dimension = 1 then (Some ExcNotImplemented, tria)
      else case find (\<lambda>(i, p). \<not> i < length (vertices tria)) new_points of
        Some (i, p) \<Rightarrow> (Some (ExcInvalidVertex i), tria)
      | None \<Rightarrow>
          let S = assemble tria;
              n = length (vertices tria);
              us = map (\<lambda>k. laplace_solve S (map (\<lambda>(i, p). (i, p ! k)) new_points)
                                          (replicate n 0)) [0..<dimension]
          in (None, tria\<lparr>vertices := map (\<lambda>v. map (\<lambda>k. us ! k ! v) [0..<dimension]) [0..<n]\<rparr>))"

text \<open>
  Modelled from the spec: the solver is external. What the spec asks of it, up to its
  tolerance: the solution has as many entries
  as there are vertices, and at a constrained index it is within \<open>tol\<close> of the prescribed
  value.
\<close>

definition solver_within ::
  "('s \<Rightarrow> (nat \<times> real) list \<Rightarrow> real list \<Rightarrow> real list) \<Rightarrow> real \<Rightarrow> bool" where
  "solver_within laplace_solve tol =
     (\<forall>S m u. distinct (map fst m) \<and> list_all (\<lambda>(i, g). i < length u) m \<longrightarrow>
        length (laplace_solve S m u) = length u \<and>
        list_all (\<lambda>(i, g). \<bar>laplace_solve S m u ! i - g\<bar> \<le> tol) m)"

section \<open>Vectors as lists\<close>

lemma length_Point [simp]: "length (Point n) = n"
  by (simp add: Point_def)

lemma pt_add_Point [simp]: "length c = n \<Longrightarrow> pt_add (Point n) c = c"
  by (auto simp: pt_add_def Point_def intro: nth_equalityI)

lemma push_forward_small:
  assumes "length (center M) = spacedim M" and "2 \<le> spacedim M"
    and "0 \<le> p ! 0" and "p ! 0 \<le> 1 / 10 ^ 10"
  shows "push_forward M p = Inr (center M)"
  using assms by (simp add: push_forward_def Let_def)

lemma length_pt_add [simp]: "length (pt_add p q) = min (length p) (length q)"
  by (simp add: pt_add_def)

lemma length_pt_sub [simp]: "length (pt_sub p q) = min (length p) (length q)"
  by (simp add: pt_sub_def)

lemma length_pt_scale [simp]: "length (pt_scale a p) = length p"
  by (simp add: pt_scale_def)

lemma nth_pt_add [simp]: "i < length p \<Longrightarrow> i < length q \<Longrightarrow> pt_add p q ! i = p ! i + q ! i"
  by (simp add: pt_add_def)

lemma nth_pt_sub [simp]: "i < length p \<Longrightarrow> i < length q \<Longrightarrow> pt_sub p q ! i = p ! i - q ! i"
  by (simp add: pt_sub_def)

lemma nth_pt_scale [simp]: "i < length p \<Longrightarrow> pt_scale a p ! i = a * p ! i"
  by (simp add: pt_scale_def)

lemma nth_Point [simp]: "i < n \<Longrightarrow> Point n ! i = 0"
  by (simp add: Point_def)

lemma pt_sub_pt_add_cancel: "length c = length X \<Longrightarrow> pt_sub (pt_add c X) c = X"
  by (rule nth_equalityI) simp_all

lemma sum_squares_nonneg: "0 \<le> (\<Sum>x\<leftarrow>p. x * x :: real)"
  by (induction p) simp_all

lemma pt_norm_nonneg [simp]: "0 \<le> pt_norm p"
  by (simp add: pt_norm_def sum_squares_nonneg)

lemma pt_norm_scale: "pt_norm (pt_scale a p) = \<bar>a\<bar> * pt_norm p"
proof -
  have "(\<Sum>x\<leftarrow>p. a * x * (a * x)) = (a * a) * (\<Sum>x\<leftarrow>p. x * x)"
    by (induction p) (simp_all add: algebra_simps)
  then show ?thesis
    by (simp add: pt_norm_def pt_scale_def comp_def real_sqrt_mult)
qed

lemma sum_squares_zero: "(\<Sum>x\<leftarrow>p. x * x) = 0 \<longleftrightarrow> (\<forall>x\<in>set p. x = (0::real))"
proof (induction p)
  case Nil
  then show ?case by simp
next
  case (Cons a p)
  have "0 \<le> (\<Sum>x\<leftarrow>p. x * x)" by (rule sum_squares_nonneg)
  moreover have "0 \<le> a * a" by simp
  ultimately have "a * a + (\<Sum>x\<leftarrow>p. x * x) = 0 \<longleftrightarrow> a * a = 0 \<and> (\<Sum>x\<leftarrow>p. x * x) = 0"
    by (rule add_nonneg_eq_0_iff[rotated])
  with Cons show ?case by simp
qed

lemma pt_norm_zero_iff: "pt_norm p = 0 \<longleftrightarrow> (\<forall>x\<in>set p. x = 0)"
  by (simp add: pt_norm_def sum_squares_zero)

lemma pt_norm_sub_zero_iff:
  assumes "length m = length c"
  shows "pt_norm (pt_sub m c) = 0 \<longleftrightarrow> m = c"
proof
  assume h: "pt_norm (pt_sub m c) = 0"
  show "m = c"
  proof (rule nth_equalityI)
    show "length m = length c" by (rule assms)
  next
    fix i assume i: "i < length m"
    then have "pt_sub m c ! i \<in> set (pt_sub m c)" using assms by (intro nth_mem) simp
    with h have "pt_sub m c ! i = 0" by (simp add: pt_norm_zero_iff)
    with i assms show "m ! i = c ! i" by simp
  qed
next
  assume "m = c"
  then show "pt_norm (pt_sub m c) = 0"
    by (auto simp: pt_norm_zero_iff pt_sub_def in_set_zip)
qed

lemma get_new_point_loop_sums:
  assumes "points_in sd quad" and "length m = sd"
  shows "get_new_point_loop c quad (r, m) =
           (r + spec_rho_bar c quad, pt_add m (spec_weighted_average sd quad))"
  using assms
proof (induction quad arbitrary: r m)
  case Nil
  then show ?case
    by (auto simp: spec_rho_bar_def spec_weighted_average_def intro!: nth_equalityI)
next
  case (Cons a quad)
  obtain w q where a: "a = (w, q)" by (cases a)
  from Cons.prems a have q: "length q = sd" and rest: "points_in sd quad"
    by (simp_all add: points_in_def)
  have len: "length (pt_add m (pt_scale w q)) = sd"
    using q Cons.prems by simp
  have "pt_add (pt_add m (pt_scale w q)) (spec_weighted_average sd quad) =
        pt_add m (spec_weighted_average sd ((w, q) # quad))"
    using q Cons.prems by (intro nth_equalityI) (simp_all add: spec_weighted_average_def)
  then show ?case
    using Cons.IH[OF rest len] a by (simp add: spec_rho_bar_def)
qed

lemma sqrt_values: "sqrt 9 = 3" "sqrt 16 = 4" "sqrt (25 / 4) = 5 / 2"
  by (rule real_sqrt_unique; simp add: power2_eq_square)+

lemma spec_rho_bar_nonneg:
  "\<forall>w\<in>set (weights quad). 0 \<le> w \<Longrightarrow> 0 \<le> spec_rho_bar c quad"
  by (induction quad) (auto simp: spec_rho_bar_def weights_def)

lemma length_spec_weighted_average [simp]: "length (spec_weighted_average sd quad) = sd"
  by (simp add: spec_weighted_average_def)

lemma get_new_point_ambient:
  assumes "spacedim M \<noteq> 2" and "length (center M) = spacedim M"
    and "points_in (spacedim M) quad"
  shows "get_new_point M quad =
          (let R = pt_sub (spec_weighted_average (spacedim M) quad) (center M)
           in if pt_norm R = 0 then Inl NotANumber
              else Inr (pt_add (center M)
                      (pt_scale (spec_rho_bar (center M) quad / pt_norm R) R)))"
proof -
  have "pt_add (Point (spacedim M)) (spec_weighted_average (spacedim M) quad) =
        spec_weighted_average (spacedim M) quad"
    by simp
  then show ?thesis
    using assms get_new_point_loop_sums[OF assms(3) length_Point, of "center M" 0]
    by (simp add: get_new_point_def Let_def)
qed

lemma Point_2: "Point 2 = [0, 0]" and Point_3: "Point 3 = [0, 0, 0]"
  by (simp_all add: Point_def numeral_eq_Suc)

lemma upt3: "[0..<3] = [0,1,2]" by (simp add: upt_rec)

section \<open>The angle function\<close>

lemma atan2_bounds: "- pi < atan2 y x \<and> atan2 y x \<le> pi"
proof -
  have b: "- (pi / 2) < arctan (y / x)" "arctan (y / x) < pi / 2"
    by (rule arctan_lbound, rule arctan_ubound)
  have "arctan (y / x) \<le> 0" if "x < 0" "0 \<le> y"
    using that by (simp add: divide_nonneg_neg arctan_le_zero_iff)
  moreover have "0 < arctan (y / x)" if "x < 0" "y < 0"
    using that by (simp add: divide_neg_neg arctan_less_zero_iff zero_less_arctan_iff)
  ultimately show ?thesis
    using b pi_gt_zero by (auto simp: atan2_def)
qed

lemma atan2_nonneg: "0 \<le> y \<Longrightarrow> 0 \<le> atan2 y x"
proof -
  assume y: "0 \<le> y"
  have "0 \<le> arctan (y / x)" if "0 < x"
    using that y by (simp add: zero_le_arctan_iff)
  moreover have "0 \<le> arctan (y / x) + pi"
    using arctan_lbound[of "y / x"] pi_gt_zero by linarith
  ultimately show ?thesis
    using y by (simp add: atan2_def)
qed

lemma sqrt_sum_squares_pos:
  assumes "0 < x"
  shows "sqrt (x * x + y * y) = x * sqrt (1 + (y / x)\<^sup>2)"
proof -
  have "x * x + y * y = x\<^sup>2 * (1 + (y / x)\<^sup>2)"
    using assms by (simp add: power2_eq_square field_simps)
  then show ?thesis using assms by (simp add: real_sqrt_mult)
qed

lemma sqrt_sum_squares_neg:
  assumes "x < 0"
  shows "sqrt (x * x + y * y) = - x * sqrt (1 + (y / x)\<^sup>2)"
proof -
  have "x * x + y * y = x\<^sup>2 * (1 + (y / x)\<^sup>2)"
    using assms by (simp add: power2_eq_square field_simps)
  then show ?thesis using assms by (simp add: real_sqrt_mult)
qed

lemma sqrt_one_plus_pos: "0 < sqrt (1 + (t::real)\<^sup>2)"
  by (simp add: add_pos_nonneg)

lemma cos_atan2: "sqrt (x * x + y * y) * cos (atan2 y x) = x"
proof -
  consider "0 < x" | "x < 0" | "x = 0" by linarith
  then show ?thesis
  proof cases
    case 1
    then show ?thesis
      using sqrt_one_plus_pos[of "y / x"]
      by (simp add: atan2_def cos_arctan sqrt_sum_squares_pos)
  next
    case 2
    then show ?thesis
      using sqrt_one_plus_pos[of "y / x"]
      by (simp add: atan2_def cos_arctan sqrt_sum_squares_neg cos_add cos_diff)
  next
    case 3
    then show ?thesis by (simp add: atan2_def)
  qed
qed

lemma sin_atan2: "sqrt (x * x + y * y) * sin (atan2 y x) = y"
proof -
  consider "0 < x" | "x < 0" | "x = 0" by linarith
  then show ?thesis
  proof cases
    case 1
    then show ?thesis
      using sqrt_one_plus_pos[of "y / x"]
      by (simp add: atan2_def sin_arctan sqrt_sum_squares_pos)
  next
    case 2
    then show ?thesis
      using sqrt_one_plus_pos[of "y / x"]
      by (simp add: atan2_def sin_arctan sqrt_sum_squares_neg sin_add sin_diff)
  next
    case 3
    then show ?thesis by (simp add: atan2_def)
  qed
qed

lemma angle_unique:
  assumes "sin a = sin t" and "cos a = cos t"
    and "- pi < a" "a \<le> pi" "- pi < t" "t \<le> pi"
  shows "a = t"
proof -
  from assms(1,2) obtain n :: int where n: "a = t + 2 * pi * n"
    using sin_cos_eq_iff[of a t] by auto
  have "\<bar>a - t\<bar> < 2 * pi" using assms by linarith
  with n have "\<bar>2 * pi * n\<bar> < 2 * pi * 1" by simp
  then have "\<bar>real_of_int n\<bar> < 1"
    using pi_gt_zero by (simp add: abs_mult)
  then have "n = 0" by linarith
  with n show ?thesis by simp
qed

lemma polar_sq: "(r * cos t) * (r * cos t) + (r * sin t) * (r * sin t) = r * r" for r t :: real
proof -
  have "(r * cos t) * (r * cos t) + (r * sin t) * (r * sin t) = (r * r) * ((sin t)\<^sup>2 + (cos t)\<^sup>2)"
    unfolding power2_eq_square by (rule trans[OF _ sym[OF distrib_left]]) simp
  then show ?thesis by simp
qed

lemma polar_sqrt:
  assumes "0 < r"
  shows "sqrt ((r * cos t) * (r * cos t) + (r * sin t) * (r * sin t)) = r"
proof -
  have "sqrt (r * r) = r" using assms by simp
  then show ?thesis by (simp only: polar_sq)
qed


lemma atan2_polar_cos:
  assumes "0 < r"
  shows "cos (atan2 (r * sin t) (r * cos t)) = cos t"
proof -
  have "r * cos (atan2 (r * sin t) (r * cos t)) = r * cos t"
    using cos_atan2[of "r * cos t" "r * sin t"] by (simp only: polar_sqrt[OF assms])
  then show ?thesis using assms by (simp only: mult_cancel_left) simp
qed

lemma atan2_polar_sin:
  assumes "0 < r"
  shows "sin (atan2 (r * sin t) (r * cos t)) = sin t"
proof -
  have "r * sin (atan2 (r * sin t) (r * cos t)) = r * sin t"
    using sin_atan2[of "r * cos t" "r * sin t"] by (simp only: polar_sqrt[OF assms])
  then show ?thesis using assms by (simp only: mult_cancel_left) simp
qed


lemma atan2_polar:
  assumes "0 < r" and "- pi < t" and "t \<le> pi"
  shows "atan2 (r * sin t) (r * cos t) = t"
proof (rule angle_unique)
  show "sin (atan2 (r * sin t) (r * cos t)) = sin t" by (rule atan2_polar_sin[OF assms(1)])
  show "cos (atan2 (r * sin t) (r * cos t)) = cos t" by (rule atan2_polar_cos[OF assms(1)])
  show "- pi < atan2 (r * sin t) (r * cos t)" using atan2_bounds by blast
  show "atan2 (r * sin t) (r * cos t) \<le> pi" using atan2_bounds by blast
  show "- pi < t" by (rule assms(2))
  show "t \<le> pi" by (rule assms(3))
qed

lemma spec_normalized_range: "- pi < a \<Longrightarrow> a \<le> pi \<Longrightarrow> 0 \<le> spec_normalized a \<and> spec_normalized a < 2 * pi"
  using pi_gt_zero by (auto simp: spec_normalized_def)

lemma normalized_atan2_range:
  "0 \<le> spec_normalized (atan2 y x) \<and> spec_normalized (atan2 y x) < 2 * pi"
  using atan2_bounds[of y x] by (intro spec_normalized_range) simp_all

lemma atan2_fourth_quadrant:
  assumes "0 < x" and "y < 0"
  shows "spec_normalized (atan2 y x) = 3 * pi / 2 + arctan (x / (- y))"
proof -
  have "y / x < 0" using assms by (simp add: divide_neg_pos)
  then have neg: "atan2 y x < 0" using assms by (simp add: atan2_def)
  have "x / (- y) \<noteq> 0" using assms by simp
  from arctan_inverse[OF this] have "arctan (1 / (x / (- y))) = sgn (x / (- y)) * pi / 2 - arctan (x / (- y))" .
  moreover have "1 / (x / (- y)) = - (y / x)" using assms by (simp add: field_simps)
  moreover have "sgn (x / (- y)) = 1" using assms by (simp add: sgn_real_def field_simps)
  ultimately have "arctan (- (y / x)) = pi / 2 - arctan (x / (- y))" by simp
  then have "arctan (y / x) = arctan (x / (- y)) - pi / 2" by (simp add: arctan_minus)
  with neg assms show ?thesis by (simp add: spec_normalized_def atan2_def)
qed

lemma atan2_negative_y_axis: "y < 0 \<Longrightarrow> spec_normalized (atan2 y 0) = 3 * pi / 2"
  by (simp add: spec_normalized_def atan2_def)

lemma pull_back_2d:
  assumes "spacedim M = 2" and "length (center M) = 2" and "length q = 2"
  shows "pull_back M q =
           Inr [pt_norm (pt_sub q (center M)),
                spec_normalized (atan2 (q ! 1 - center M ! 1) (q ! 0 - center M ! 0))]"
  using assms by (simp add: pull_back_def Let_def Point_2 spec_normalized_def)

lemma pull_back_3d:
  assumes "spacedim M = 3" and "length (center M) = 3" and "length q = 3"
  shows "pull_back M q =
           Inr [pt_norm (pt_sub q (center M)),
                atan2 (sqrt ((q ! 0 - center M ! 0) * (q ! 0 - center M ! 0) +
                             (q ! 1 - center M ! 1) * (q ! 1 - center M ! 1)))
                      (q ! 2 - center M ! 2),
                spec_normalized (atan2 (q ! 1 - center M ! 1) (q ! 0 - center M ! 0))]"
  using assms by (simp add: pull_back_def Let_def Point_3 spec_normalized_def)

section \<open>Closed forms of the two transforms\<close>

lemma list2: "length q = 2 \<Longrightarrow> q = [q ! 0, q ! 1]" for q :: "'a list"
  by (cases q; cases "tl q") auto

lemma list3: "length q = 3 \<Longrightarrow> q = [q ! 0, q ! 1, q ! 2]" for q :: "'a list"
  by (cases q; cases "tl q"; cases "tl (tl q)") auto

lemma pt_add_2: "length c = 2 \<Longrightarrow> pt_add [a, b] c = [a + c ! 0, b + c ! 1]"
  by (cases c; cases "tl c") (auto simp: pt_add_def)

lemma pt_add_3: "length c = 3 \<Longrightarrow> pt_add [a, b, d] c = [a + c ! 0, b + c ! 1, d + c ! 2]"
  by (cases c; cases "tl c"; cases "tl (tl c)") (auto simp: pt_add_def)

lemma pt_sub_2: "length q = 2 \<Longrightarrow> length c = 2 \<Longrightarrow> pt_sub q c = [q ! 0 - c ! 0, q ! 1 - c ! 1]"
  by (cases c; cases "tl c"; cases q; cases "tl q") (auto simp: pt_sub_def)

lemma pt_sub_3:
  "length q = 3 \<Longrightarrow> length c = 3 \<Longrightarrow> pt_sub q c = [q ! 0 - c ! 0, q ! 1 - c ! 1, q ! 2 - c ! 2]"
  by (cases c; cases "tl c"; cases "tl (tl c)"; cases q; cases "tl q"; cases "tl (tl q)")
     (auto simp: pt_sub_def)

lemma cos_spec_normalized [simp]: "cos (spec_normalized a) = cos a"
  by (simp add: spec_normalized_def)

lemma sin_spec_normalized [simp]: "sin (spec_normalized a) = sin a"
  by (simp add: spec_normalized_def)

lemma normalized_atan2_polar:
  assumes "0 < r" and "0 \<le> t" and "t < 2 * pi"
  shows "spec_normalized (atan2 (r * sin t) (r * cos t)) = t"
proof (cases "t \<le> pi")
  case True
  then have "atan2 (r * sin t) (r * cos t) = t"
    using assms pi_gt_zero by (intro atan2_polar) linarith+
  then show ?thesis using assms(2) by (simp add: spec_normalized_def)
next
  case False
  have "atan2 (r * sin (t - 2 * pi)) (r * cos (t - 2 * pi)) = t - 2 * pi"
    using False assms by (intro atan2_polar) linarith+
  moreover have "sin (t - 2 * pi) = sin t" "cos (t - 2 * pi) = cos t"
    by (simp_all add: sin_diff cos_diff)
  ultimately have "atan2 (r * sin t) (r * cos t) = t - 2 * pi" by simp
  then show ?thesis using assms(3) by (simp add: spec_normalized_def)
qed

lemma push_forward_2d:
  assumes "spacedim M = 2" and "length (center M) = 2" and "1 / 10 ^ 10 < p ! 0"
  shows "push_forward M p =
           Inr [p ! 0 * cos (p ! 1) + center M ! 0, p ! 0 * sin (p ! 1) + center M ! 1]"
proof -
  have "0 \<le> p ! 0" using assms(3) by (rule order_trans[OF _ less_imp_le, rotated]) simp
  then show ?thesis
    using assms by (simp add: push_forward_def Let_def Point_2 pt_add_2)
qed

lemma push_forward_3d:
  assumes "spacedim M = 3" and "length (center M) = 3" and "1 / 10 ^ 10 < p ! 0"
  shows "push_forward M p =
           Inr [p ! 0 * sin (p ! 1) * cos (p ! 2) + center M ! 0,
                p ! 0 * sin (p ! 1) * sin (p ! 2) + center M ! 1,
                p ! 0 * cos (p ! 1) + center M ! 2]"
proof -
  have "0 \<le> p ! 0" using assms(3) by (rule order_trans[OF _ less_imp_le, rotated]) simp
  then show ?thesis
    using assms by (simp add: push_forward_def Let_def Point_3 pt_add_3)
qed

lemma pt_norm_2: "pt_norm [x, y] = sqrt (x * x + y * y)"
  by (simp add: pt_norm_def)

lemma pt_norm_3: "pt_norm [x, y, z] = sqrt (x * x + y * y + z * z)"
  by (simp add: pt_norm_def add.assoc)

lemma roundtrip_chart_2d:
  assumes M: "spacedim M = 2" "length (center M) = 2"
    and p: "length p = 2" "1 / 10 ^ 10 < p ! 0" "0 \<le> p ! 1" "p ! 1 < 2 * pi"
  shows "\<exists>q. push_forward M p = Inr q \<and> pull_back M q = Inr p"
proof -
  let ?q = "[p ! 0 * cos (p ! 1) + center M ! 0, p ! 0 * sin (p ! 1) + center M ! 1]"
  have r: "0 < p ! 0" using p(2) by (rule less_trans[rotated]) simp
  have "pull_back M ?q = Inr [p ! 0, p ! 1]"
    using M r p(3,4)
    by (simp add: pull_back_2d pt_sub_2 pt_norm_2 polar_sqrt normalized_atan2_polar)
  then show ?thesis
    using push_forward_2d[OF M p(2)] list2[OF p(1)] by simp
qed

lemma sphere_sq:
  "(r * sin t * cos f) * (r * sin t * cos f) + (r * sin t * sin f) * (r * sin t * sin f)
     = (r * sin t) * (r * sin t)" for r t f :: real
  using polar_sq[of "r * sin t" f] by (simp only: mult.assoc)

lemma sphere_sqrt_xy:
  assumes "0 \<le> r * sin t"
  shows "sqrt ((r * sin t * cos f) * (r * sin t * cos f) + (r * sin t * sin f) * (r * sin t * sin f))
     = r * sin t"
  using assms by (simp only: sphere_sq real_sqrt_mult_self) simp

lemma sphere_sqrt_xyz:
  assumes "0 < r"
  shows "sqrt ((r * sin t * cos f) * (r * sin t * cos f) + (r * sin t * sin f) * (r * sin t * sin f)
           + (r * cos t) * (r * cos t)) = r"
proof -
  have "(r * sin t) * (r * sin t) + (r * cos t) * (r * cos t) = r * r"
    using polar_sq[of r t] by (simp only: add.commute)
  then show ?thesis
    using assms by (simp only: sphere_sq real_sqrt_mult_self) simp
qed

lemma sphere_angles:
  fixes r t f :: real
  assumes "0 < r" "0 \<le> t" "t \<le> pi" "0 \<le> f" "f < 2 * pi" "t = 0 \<or> t = pi \<Longrightarrow> f = 0"
  shows "atan2 (sqrt ((r * sin t * cos f) * (r * sin t * cos f) +
                      (r * sin t * sin f) * (r * sin t * sin f))) (r * cos t) = t"
    and "spec_normalized (atan2 (r * sin t * sin f) (r * sin t * cos f)) = f"
proof -
  have s0: "0 \<le> sin t" using assms(2,3) by (rule sin_ge_zero)
  then have rs: "0 \<le> r * sin t" using assms(1) by simp
  have "atan2 (r * sin t) (r * cos t) = t"
    using assms(1,2,3) pi_gt_zero by (intro atan2_polar) linarith+
  then show "atan2 (sqrt ((r * sin t * cos f) * (r * sin t * cos f) +
                      (r * sin t * sin f) * (r * sin t * sin f))) (r * cos t) = t"
    by (simp only: sphere_sqrt_xy[OF rs])
  show "spec_normalized (atan2 (r * sin t * sin f) (r * sin t * cos f)) = f"
  proof (cases "t = 0 \<or> t = pi")
    case True
    then have "sin t = 0" by auto
    then show ?thesis using assms(6)[OF True] by (simp add: atan2_def spec_normalized_def)
  next
    case False
    then have "0 < sin t" using assms(2,3) by (intro sin_gt_zero) simp_all
    then have "0 < r * sin t" using assms(1) by simp
    then show ?thesis using assms(4,5) by (rule normalized_atan2_polar)
  qed
qed

lemma roundtrip_chart_3d:
  assumes M: "spacedim M = 3" "length (center M) = 3"
    and p: "length p = 3" "1 / 10 ^ 10 < p ! 0" "0 \<le> p ! 1" "p ! 1 \<le> pi"
      "0 \<le> p ! 2" "p ! 2 < 2 * pi" "p ! 1 = 0 \<or> p ! 1 = pi \<Longrightarrow> p ! 2 = 0"
  shows "\<exists>q. push_forward M p = Inr q \<and> pull_back M q = Inr p"
proof -
  obtain r t f where pe: "p = [r, t, f]" using list3[OF p(1)] by blast
  have r: "0 < r" using p(2) pe by simp
  have a: "0 \<le> t" "t \<le> pi" "0 \<le> f" "f < 2 * pi" "t = 0 \<or> t = pi \<Longrightarrow> f = 0"
    using p(3-7) pe by simp_all
  let ?q = "[r * sin t * cos f + center M ! 0, r * sin t * sin f + center M ! 1,
             r * cos t + center M ! 2]"
  have 1: "push_forward M p = Inr ?q"
    using push_forward_3d[OF M p(2)] pe by simp
  have "pull_back M ?q = Inr [r, t, f]"
    using M by (simp add: pull_back_3d pt_sub_3 pt_norm_3 sphere_sqrt_xyz[OF r]
        sphere_angles[OF r a])
  with 1 pe show ?thesis by simp
qed

lemma pt_norm_sub_commute: "pt_norm (pt_sub a b) = pt_norm (pt_sub b a)"
proof -
  have "map ((\<lambda>x. x * x) \<circ> (\<lambda>(x, y). x - y)) (zip a b) =
        map ((\<lambda>x. x * x) \<circ> (\<lambda>(x, y). x - y)) (zip b a)"
  proof (induction a arbitrary: b)
    case Nil
    then show ?case by simp
  next
    case (Cons x a)
    then show ?case by (cases b) (simp_all add: algebra_simps)
  qed
  then show ?thesis by (simp add: pt_norm_def pt_sub_def)
qed

lemma pt_norm_sub_self [simp]: "pt_norm (pt_sub a a) = 0"
  by (simp add: pt_norm_sub_zero_iff)

lemma roundtrip_space_2d:
  assumes M: "spacedim M = 2" "length (center M) = 2" and q: "length q = 2"
  shows "\<exists>p q'. pull_back M q = Inr p \<and> push_forward M p = Inr q' \<and>
           q' = (if 1 / 10 ^ 10 < pt_norm (pt_sub q (center M)) then q else center M)"
proof -
  define x y where "x = q ! 0 - center M ! 0" and "y = q ! 1 - center M ! 1"
  define p where "p = [sqrt (x * x + y * y), spec_normalized (atan2 y x)]"
  have n: "pt_norm (pt_sub q (center M)) = sqrt (x * x + y * y)"
    using M q by (simp add: pt_sub_2 pt_norm_2 x_def y_def)
  have 1: "pull_back M q = Inr p"
    using M q by (simp add: pull_back_2d pt_sub_2 pt_norm_2 p_def x_def y_def)
  have 2: "push_forward M p = Inr q" if "1 / 10 ^ 10 < sqrt (x * x + y * y)"
  proof -
    have "push_forward M p = Inr [x + center M ! 0, y + center M ! 1]"
      using that M by (simp add: push_forward_2d p_def cos_atan2 sin_atan2)
    also have "[x + center M ! 0, y + center M ! 1] = q"
      using list2[OF q] by (simp add: x_def y_def)
    finally show ?thesis .
  qed
  have 3: "push_forward M p = Inr (center M)" if "\<not> 1 / 10 ^ 10 < sqrt (x * x + y * y)"
    using that M by (intro push_forward_small) (simp_all add: p_def)
  show ?thesis using 1 2 3 n by auto
qed

lemma sphere_back:
  fixes x y z :: real
  defines "rho \<equiv> sqrt (x * x + y * y + z * z)"
    and "theta \<equiv> atan2 (sqrt (x * x + y * y)) z"
    and "phi \<equiv> atan2 y x"
  shows "rho * sin theta * cos phi = x" and "rho * sin theta * sin phi = y"
    and "rho * cos theta = z"
proof -
  let ?s = "sqrt (x * x + y * y)"
  have ss: "?s * ?s = x * x + y * y" by simp
  have rho: "rho = sqrt (z * z + ?s * ?s)"
    by (simp only: ss rho_def) (simp add: add.commute)
  have 1: "rho * sin theta = ?s"
    unfolding rho theta_def by (rule sin_atan2)
  show "rho * cos theta = z"
    unfolding rho theta_def by (rule cos_atan2)
  show "rho * sin theta * cos phi = x"
    unfolding 1 phi_def by (rule cos_atan2)
  show "rho * sin theta * sin phi = y"
    unfolding 1 phi_def by (rule sin_atan2)
qed

lemma roundtrip_space_3d:
  assumes M: "spacedim M = 3" "length (center M) = 3" and q: "length q = 3"
  shows "\<exists>p q'. pull_back M q = Inr p \<and> push_forward M p = Inr q' \<and>
           q' = (if 1 / 10 ^ 10 < pt_norm (pt_sub q (center M)) then q else center M)"
proof -
  define x y z where "x = q ! 0 - center M ! 0" and "y = q ! 1 - center M ! 1"
    and "z = q ! 2 - center M ! 2"
  define p where "p = [sqrt (x * x + y * y + z * z), atan2 (sqrt (x * x + y * y)) z,
    spec_normalized (atan2 y x)]"
  have n: "pt_norm (pt_sub q (center M)) = sqrt (x * x + y * y + z * z)"
    using M q by (simp add: pt_sub_3 pt_norm_3 x_def y_def z_def)
  have 1: "pull_back M q = Inr p"
    using M q by (simp add: pull_back_3d pt_sub_3 pt_norm_3 p_def x_def y_def z_def)
  have 2: "push_forward M p = Inr q" if "1 / 10 ^ 10 < sqrt (x * x + y * y + z * z)"
  proof -
    have "push_forward M p = Inr [x + center M ! 0, y + center M ! 1, z + center M ! 2]"
      using that M by (simp add: push_forward_3d p_def sphere_back)
    also have "[x + center M ! 0, y + center M ! 1, z + center M ! 2] = q"
      using list3[OF q] by (simp add: x_def y_def z_def)
    finally show ?thesis .
  qed
  have 3: "push_forward M p = Inr (center M)" if "\<not> 1 / 10 ^ 10 < sqrt (x * x + y * y + z * z)"
    using that M by (intro push_forward_small) (simp_all add: p_def)
  show ?thesis using 1 2 3 n by auto
qed

section \<open>The periodicity vector\<close>

lemma invoke_all_unchanged: "fst (invoke_all M calls) = M"
proof (induction calls arbitrary: M)
  case Nil
  then show ?case by simp
next
  case (Cons c calls)
  have "fst (invoke M c) = M" by (cases c) simp_all
  with Cons show ?case by (simp split: prod.splits) (metis fst_conv)
qed

lemma get_periodicity_2: "get_periodicity 2 = [0, 2 * pi]"
  by (simp add: get_periodicity_def Point_2)

lemma get_periodicity_3: "get_periodicity 3 = [0, 0, 2 * pi]"
  by (simp add: get_periodicity_def Point_3)

lemma nth_get_periodicity:
  "i < sd \<Longrightarrow> get_periodicity sd ! i = (if i = sd - 1 then 2 * pi else 0)"
  by (simp add: get_periodicity_def Point_def nth_list_update)

text \<open>
  C6, as the code has it. The periodicity vector has exactly one non-zero entry, \<open>2\<pi>\<close>, at
  the last coordinate: \<open>(0, 2\<pi>)\<close> in two dimensions (the angle \<open>\<theta>\<close>) and \<open>(0, 0, 2\<pi>)\<close> in
  three (the azimuth \<open>\<phi>\<close>; the entry of the polar angle \<open>\<theta>\<close> is 0). The constructor stores
  this vector, and no sequence of calls of the member functions changes it.
\<close>

theorem periodicity_last_coordinate:
  "get_periodicity 2 = [0, 2 * pi] \<and> get_periodicity 3 = [0, 0, 2 * pi] \<and>
   (\<forall>i < sd. get_periodicity sd ! i = (if i = sd - 1 then 2 * pi else 0)) \<and>
   (sd \<noteq> 1 \<longrightarrow> (\<exists>M. SphericalManifold_ctor sd c = Inr M \<and>
                    periodicity M = get_periodicity sd \<and>
                    periodicity (fst (invoke_all M calls)) = get_periodicity sd))"
  by (simp add: get_periodicity_2 get_periodicity_3 nth_get_periodicity
      SphericalManifold_ctor_def invoke_all_unchanged)

text \<open>The three-dimensional manifold, after two calls.\<close>

theorem periodicity_last_coordinate_witness:
  "get_periodicity 3 ! 1 = 0 \<and> get_periodicity 3 ! 2 = 2 * pi \<and>
   (\<exists>M. SphericalManifold_ctor 3 [0, 0, 0] = Inr M \<and>
        periodicity (fst (invoke_all M [Call_pull_back [1, 0, 0], Call_push_forward [1, 0, 0]]))
          = [0, 0, 2 * pi])"
  using periodicity_last_coordinate
    [of 3 "[0, 0, 0]" "[Call_pull_back [1, 0, 0], Call_push_forward [1, 0, 0]]"]
  by auto

text \<open>
  C6 as stated fails: in three dimensions the entry of the polar angle \<open>\<theta>\<close> is not of
  magnitude \<open>2\<pi>\<close>.
\<close>

theorem periodicity_counterexample:
  "\<bar>get_periodicity 3 ! 1\<bar> \<noteq> 2 * pi"
  by (simp add: get_periodicity_def Point_3)

section \<open>The new point of a quadrature\<close>

text \<open>
  C1, as the code has it. In dimension 2 \<open>get_new_point\<close> returns the result of the generic
  chart rule. In dimension greater than 2, for every quadrature whose weighted average
  \<open>m = \<Sum> w\<^sub>i p\<^sub>i\<close> differs from the centre, it returns \<open>center + R'\<close>, where \<open>R'\<close> is
  \<open>R = m - center\<close> multiplied by \<open>s / \<parallel>R\<parallel>\<close> and \<open>s = \<Sum> w\<^sub>i \<parallel>p\<^sub>i - center\<parallel>\<close> is the weighted
  average radius; the norm of \<open>R'\<close> is \<open>\<bar>s\<bar>\<close>, which is \<open>s\<close> when no weight is negative. The
  weights need not sum to 1.
\<close>

theorem get_new_point_rule:
  assumes "length (center M) = spacedim M" and "points_in (spacedim M) quad"
  shows "(spacedim M = 2 \<longrightarrow> get_new_point M quad = ManifoldChart_get_new_point M quad) \<and>
         (2 < spacedim M \<and> spec_weighted_average (spacedim M) quad \<noteq> center M \<longrightarrow>
            (let R = pt_sub (spec_weighted_average (spacedim M) quad) (center M);
                 R' = pt_scale (spec_rho_bar (center M) quad / pt_norm R) R
             in get_new_point M quad = Inr (pt_add (center M) R') \<and>
                pt_norm R' = \<bar>spec_rho_bar (center M) quad\<bar> \<and>
                ((\<forall>w\<in>set (weights quad). 0 \<le> w) \<longrightarrow>
                   pt_norm R' = spec_rho_bar (center M) quad)))"
proof (intro conjI impI)
  show "get_new_point M quad = ManifoldChart_get_new_point M quad" if "spacedim M = 2"
    using that by (simp add: get_new_point_def)
next
  assume h: "2 < spacedim M \<and> spec_weighted_average (spacedim M) quad \<noteq> center M"
  define R where "R = pt_sub (spec_weighted_average (spacedim M) quad) (center M)"
  have nz: "pt_norm R \<noteq> 0"
    using h assms(1) by (simp add: R_def pt_norm_sub_zero_iff)
  have 1: "get_new_point M quad =
        Inr (pt_add (center M) (pt_scale (spec_rho_bar (center M) quad / pt_norm R) R))"
    using get_new_point_ambient[OF _ assms] h nz by (simp add: R_def Let_def)
  have 2: "pt_norm (pt_scale (spec_rho_bar (center M) quad / pt_norm R) R) =
        \<bar>spec_rho_bar (center M) quad\<bar>"
    using nz by (simp add: pt_norm_scale)
  have 3: "pt_norm (pt_scale (spec_rho_bar (center M) quad / pt_norm R) R) =
        spec_rho_bar (center M) quad" if "\<forall>w\<in>set (weights quad). 0 \<le> w"
    using 2 spec_rho_bar_nonneg[OF that, of "center M"] by simp
  from 1 2 3 show "let R = pt_sub (spec_weighted_average (spacedim M) quad) (center M);
                 R' = pt_scale (spec_rho_bar (center M) quad / pt_norm R) R
             in get_new_point M quad = Inr (pt_add (center M) R') \<and>
                pt_norm R' = \<bar>spec_rho_bar (center M) quad\<bar> \<and>
                ((\<forall>w\<in>set (weights quad). 0 \<le> w) \<longrightarrow>
                   pt_norm R' = spec_rho_bar (center M) quad)"
    by (simp add: R_def Let_def)
qed

text \<open>Two points at radius 3 and 4 with weights one half: the new point has radius 7/2.\<close>

theorem get_new_point_rule_witness:
  "get_new_point \<lparr>spacedim = 3, center = [0, 0, 0], periodicity = get_periodicity 3\<rparr>
     [(1 / 2, [3, 0, 0]), (1 / 2, [0, 4, 0])] = Inr [21 / 10, 28 / 10, 0] \<and>
   pt_norm [21 / 10, 28 / 10, 0] = 1 / 2 * pt_norm [3, 0, 0] + 1 / 2 * pt_norm [0, 4, 0]"
  using get_new_point_rule
    [of "\<lparr>spacedim = 3, center = [0, 0, 0], periodicity = get_periodicity 3\<rparr>"
        "[(1 / 2, [3, 0, 0]), (1 / 2, [0, 4, 0])]"]
  by (simp add: points_in_def spec_weighted_average_def upt3 spec_rho_bar_def pt_sub_def
       pt_norm_def pt_scale_def pt_add_def weights_def sqrt_values Let_def)

text \<open>
  C1 as stated fails: the weights of two antipodal points sum to 1, and the call returns no
  point, since the re-centred average has norm 0.
\<close>

theorem get_new_point_rule_counterexample:
  "sum_list (weights [(1 / 2, [0, 0, 2]), (1 / 2, [0, 0, - 2])]) = 1 \<and>
   get_new_point \<lparr>spacedim = 3, center = [0, 0, 0], periodicity = get_periodicity 3\<rparr>
     [(1 / 2, [0, 0, 2]), (1 / 2, [0, 0, - 2])] = Inl NotANumber"
  by (simp add: weights_def get_new_point_def Point_3 pt_add_def pt_sub_def pt_scale_def
       pt_norm_def)

text \<open>
  C3, as the code has it. For two points at the same distance \<open>r\<close> from the centre and two
  weights that sum to 1, the point returned by the three-dimensional \<open>get_new_point\<close> lies
  at distance \<open>r\<close> from the centre, provided the weighted average of the two points is not
  the centre itself.
\<close>

theorem get_new_point_equal_radius:
  assumes "spacedim M = 3" and "length (center M) = 3" and "length p1 = 3" and "length p2 = 3"
    and "pt_norm (pt_sub p1 (center M)) = r" and "pt_norm (pt_sub p2 (center M)) = r"
    and "w1 + w2 = 1"
    and "spec_weighted_average 3 [(w1, p1), (w2, p2)] \<noteq> center M"
  shows "\<exists>p. get_new_point M [(w1, p1), (w2, p2)] = Inr p \<and> pt_norm (pt_sub p (center M)) = r"
proof -
  let ?quad = "[(w1, p1), (w2, p2)]"
  define R where "R = pt_sub (spec_weighted_average 3 ?quad) (center M)"
  have pts: "points_in (spacedim M) ?quad" using assms(1,3,4) by (simp add: points_in_def)
  have nz: "pt_norm R \<noteq> 0"
    using assms(2,8) by (simp add: R_def pt_norm_sub_zero_iff)
  have "spec_rho_bar (center M) ?quad = (w1 + w2) * r"
    using assms(5,6) by (simp add: spec_rho_bar_def algebra_simps)
  then have rho: "spec_rho_bar (center M) ?quad = r" using assms(7) by simp
  have r0: "0 \<le> r" using assms(5) pt_norm_nonneg[of "pt_sub p1 (center M)"] by simp
  have len: "length (center M) = length (pt_scale (r / pt_norm R) R)"
    using assms(2) by (simp add: R_def)
  have "get_new_point M ?quad = Inr (pt_add (center M) (pt_scale (r / pt_norm R) R))"
    using get_new_point_ambient[OF _ _ pts] assms(1,2) nz rho by (simp add: R_def Let_def)
  moreover have "pt_norm (pt_sub (pt_add (center M) (pt_scale (r / pt_norm R) R)) (center M)) = r"
    using nz r0 by (simp add: pt_sub_pt_add_cancel[OF len] pt_norm_scale)
  ultimately show ?thesis by blast
qed

text \<open>Two points at distance 3 from the centre \<open>(1, 1, 1)\<close>, weights 1/4 and 3/4.\<close>

theorem get_new_point_equal_radius_witness:
  "\<exists>p. get_new_point \<lparr>spacedim = 3, center = [1, 1, 1], periodicity = get_periodicity 3\<rparr>
          [(1 / 4, [4, 1, 1]), (3 / 4, [1, 4, 1])] = Inr p \<and>
       pt_norm (pt_sub p [1, 1, 1]) = 3"
  using get_new_point_equal_radius
    [of "\<lparr>spacedim = 3, center = [1, 1, 1], periodicity = get_periodicity 3\<rparr>"
        "[4, 1, 1]" "[1, 4, 1]" 3 "1 / 4" "3 / 4"]
  by (simp add: spec_weighted_average_def upt3 pt_sub_def pt_norm_def sqrt_values)

text \<open>
  C3 as stated fails: two antipodal points at distance 1 with weights one half give no
  point.
\<close>

theorem get_new_point_equal_radius_counterexample:
  "pt_norm (pt_sub [2, 2, 3] [1, 2, 3]) = 1 \<and> pt_norm (pt_sub [0, 2, 3] [1, 2, 3]) = 1 \<and>
   1 / 2 + 1 / 2 = (1 :: real) \<and>
   get_new_point \<lparr>spacedim = 3, center = [1, 2, 3], periodicity = get_periodicity 3\<rparr>
     [(1 / 2, [2, 2, 3]), (1 / 2, [0, 2, 3])] = Inl NotANumber"
  by (simp add: get_new_point_def Point_3 pt_add_def pt_sub_def pt_scale_def pt_norm_def)

text \<open>
  C10. In dimension greater than 2 the quotient \<^verbatim>\<open>rho_average/R.norm()\<close> has no guard:
  \<open>get_new_point\<close> returns a point exactly when the weighted average of the points differs
  from the centre, and no number otherwise. There is a quadrature with positive weights
  that sum to 1 and points at positive radius for which the divisor is exactly zero: two
  antipodal points with weight one half each.
\<close>

theorem get_new_point_zero_divisor:
  "(2 < spacedim M \<and> length (center M) = spacedim M \<and> points_in (spacedim M) quad \<longrightarrow>
      (get_new_point M quad = Inl NotANumber \<longleftrightarrow>
         spec_weighted_average (spacedim M) quad = center M) \<and>
      (spec_weighted_average (spacedim M) quad \<noteq> center M \<longrightarrow>
         (\<exists>p. get_new_point M quad = Inr p))) \<and>
   (\<exists>M' quad'. spacedim M' = 3 \<and> length (center M') = 3 \<and> points_in 3 quad' \<and>
      sum_list (weights quad') = 1 \<and>
      list_all (\<lambda>(w, q). 0 < w \<and> 0 < pt_norm (pt_sub q (center M'))) quad' \<and>
      pt_norm (pt_sub (snd (get_new_point_loop (center M') quad' (0, Point 3))) (center M')) = 0 \<and>
      get_new_point M' quad' = Inl NotANumber)"
proof (intro conjI impI)
  assume h: "2 < spacedim M \<and> length (center M) = spacedim M \<and> points_in (spacedim M) quad"
  then have e: "get_new_point M quad =
          (let R = pt_sub (spec_weighted_average (spacedim M) quad) (center M)
           in if pt_norm R = 0 then Inl NotANumber
              else Inr (pt_add (center M)
                      (pt_scale (spec_rho_bar (center M) quad / pt_norm R) R)))"
    by (intro get_new_point_ambient) simp_all
  have z: "pt_norm (pt_sub (spec_weighted_average (spacedim M) quad) (center M)) = 0 \<longleftrightarrow>
      spec_weighted_average (spacedim M) quad = center M"
    using h by (intro pt_norm_sub_zero_iff) simp
  show "get_new_point M quad = Inl NotANumber \<longleftrightarrow>
      spec_weighted_average (spacedim M) quad = center M"
    using z by (simp add: e Let_def)
  show "\<exists>p. get_new_point M quad = Inr p"
    if "spec_weighted_average (spacedim M) quad \<noteq> center M"
    using z that by (simp add: e Let_def)
next
  let ?M = "\<lparr>spacedim = 3, center = [0, 0, 0], periodicity = get_periodicity 3\<rparr>"
  let ?quad = "[(1 / 2, [0, 1, 0]), (1 / 2, [0, - 1, 0])] :: quadrature"
  have "spacedim ?M = 3 \<and> length (center ?M) = 3 \<and> points_in 3 ?quad \<and>
      sum_list (weights ?quad) = 1 \<and>
      list_all (\<lambda>(w, q). 0 < w \<and> 0 < pt_norm (pt_sub q (center ?M))) ?quad \<and>
      pt_norm (pt_sub (snd (get_new_point_loop (center ?M) ?quad (0, Point 3))) (center ?M)) = 0 \<and>
      get_new_point ?M ?quad = Inl NotANumber"
    by (simp add: points_in_def weights_def get_new_point_def Point_3 pt_add_def pt_sub_def
        pt_scale_def pt_norm_def)
  then show "\<exists>M' quad'. spacedim M' = 3 \<and> length (center M') = 3 \<and> points_in 3 quad' \<and>
      sum_list (weights quad') = 1 \<and>
      list_all (\<lambda>(w, q). 0 < w \<and> 0 < pt_norm (pt_sub q (center M'))) quad' \<and>
      pt_norm (pt_sub (snd (get_new_point_loop (center M') quad' (0, Point 3))) (center M')) = 0 \<and>
      get_new_point M' quad' = Inl NotANumber"
    by blast
qed

text \<open>The same around the centre \<open>(1, 1, 1)\<close>.\<close>

theorem get_new_point_zero_divisor_witness:
  "sum_list (weights [(1 / 2, [2, 1, 1]), (1 / 2, [0, 1, 1])]) = 1 \<and>
   0 < pt_norm (pt_sub [2, 1, 1] [1, 1, 1]) \<and> 0 < pt_norm (pt_sub [0, 1, 1] [1, 1, 1]) \<and>
   get_new_point \<lparr>spacedim = 3, center = [1, 1, 1], periodicity = get_periodicity 3\<rparr>
     [(1 / 2, [2, 1, 1]), (1 / 2, [0, 1, 1])] = Inl NotANumber"
  using get_new_point_zero_divisor
    [of "\<lparr>spacedim = 3, center = [1, 1, 1], periodicity = get_periodicity 3\<rparr>"
        "[(1 / 2, [2, 1, 1]), (1 / 2, [0, 1, 1])]"]
  by (simp add: points_in_def weights_def spec_weighted_average_def upt3 pt_sub_def pt_norm_def)

section \<open>The round trip\<close>

text \<open>
  C2, as the code has it. In dimension 2 or 3, for every canonical chart point \<open>p\<close> with
  \<open>\<rho> > 10\<^sup>-\<^sup>1\<^sup>0\<close>, \<open>pull_back (push_forward p) = p\<close>; and for every ambient point \<open>q\<close>,
  \<open>push_forward (pull_back q)\<close> is within \<open>10\<^sup>-\<^sup>1\<^sup>0\<close> (so within the tolerance \<open>10\<^sup>-\<^sup>9\<close>) of
  \<open>q\<close>, and is \<open>q\<close> itself when \<open>q\<close> is farther than \<open>10\<^sup>-\<^sup>1\<^sup>0\<close> from the centre.
\<close>

theorem round_trip:
  assumes "spacedim M = 2 \<or> spacedim M = 3" and "length (center M) = spacedim M"
  shows "(canonical_chart_point (spacedim M) p \<and> 1 / 10 ^ 10 < p ! 0 \<longrightarrow>
            (\<exists>q. push_forward M p = Inr q \<and> pull_back M q = Inr p)) \<and>
         (length q = spacedim M \<longrightarrow>
            (\<exists>p' q'. pull_back M q = Inr p' \<and> push_forward M p' = Inr q' \<and>
               pt_norm (pt_sub q' q) \<le> 1 / 10 ^ 10 \<and> pt_norm (pt_sub q' q) < 1 / 10 ^ 9 \<and>
               (1 / 10 ^ 10 < pt_norm (pt_sub q (center M)) \<longrightarrow> q' = q)))"
proof (intro conjI impI)
  assume h: "canonical_chart_point (spacedim M) p \<and> 1 / 10 ^ 10 < p ! 0"
  show "\<exists>q. push_forward M p = Inr q \<and> pull_back M q = Inr p"
  proof (cases "spacedim M = 2")
    case True
    with h assms(2) show ?thesis
      by (intro roundtrip_chart_2d) (simp_all add: canonical_chart_point_def)
  next
    case False
    with assms(1) have 3: "spacedim M = 3" by simp
    with h assms(2) show ?thesis
      by (intro roundtrip_chart_3d) (auto simp: canonical_chart_point_def)
  qed
next
  assume q: "length q = spacedim M"
  have "\<exists>p' q'. pull_back M q = Inr p' \<and> push_forward M p' = Inr q' \<and>
           q' = (if 1 / 10 ^ 10 < pt_norm (pt_sub q (center M)) then q else center M)"
    using assms q roundtrip_space_2d[of M q] roundtrip_space_3d[of M q] by auto
  then obtain p' q' where 1: "pull_back M q = Inr p'" "push_forward M p' = Inr q'"
    and 2: "q' = (if 1 / 10 ^ 10 < pt_norm (pt_sub q (center M)) then q else center M)"
    by blast
  have 3: "pt_norm (pt_sub q' q) \<le> 1 / 10 ^ 10"
    using 2 pt_norm_sub_commute[of "center M" q] by (simp split: if_splits)
  then have 4: "pt_norm (pt_sub q' q) < 1 / 10 ^ 9"
    by (rule le_less_trans) simp
  from 1 2 3 4 show "\<exists>p' q'. pull_back M q = Inr p' \<and> push_forward M p' = Inr q' \<and>
               pt_norm (pt_sub q' q) \<le> 1 / 10 ^ 10 \<and> pt_norm (pt_sub q' q) < 1 / 10 ^ 9 \<and>
               (1 / 10 ^ 10 < pt_norm (pt_sub q (center M)) \<longrightarrow> q' = q)"
    by auto
qed

text \<open>A chart point and an ambient point of the plane, centre \<open>(1, 1)\<close>.\<close>

theorem round_trip_witness:
  "(\<exists>q. push_forward \<lparr>spacedim = 2, center = [1, 1], periodicity = get_periodicity 2\<rparr> [2, 0]
          = Inr q \<and>
        pull_back \<lparr>spacedim = 2, center = [1, 1], periodicity = get_periodicity 2\<rparr> q
          = Inr [2, 0]) \<and>
   (\<exists>p' q'. pull_back \<lparr>spacedim = 2, center = [1, 1], periodicity = get_periodicity 2\<rparr> [1, 3]
          = Inr p' \<and>
        push_forward \<lparr>spacedim = 2, center = [1, 1], periodicity = get_periodicity 2\<rparr> p'
          = Inr q' \<and> q' = [1, 3])"
proof -
  have "1 / 10 ^ 10 < pt_norm (pt_sub [1, 3] [1, 1])"
    by (simp add: pt_sub_def pt_norm_def)
  then show ?thesis
    using round_trip
      [of "\<lparr>spacedim = 2, center = [1, 1], periodicity = get_periodicity 2\<rparr>" "[2, 0]" "[1, 3]"]
    by (auto simp: canonical_chart_point_def)
qed

text \<open>
  C2 as stated fails for chart points that \<open>pull_back\<close> never returns: on the polar axis
  the azimuth is lost (\<open>(1, 0, 1)\<close> comes back as \<open>(1, 0, 0)\<close>), and a negative angle comes
  back increased by \<open>2\<pi>\<close>.
\<close>

theorem round_trip_counterexample:
  "push_forward \<lparr>spacedim = 3, center = [0, 0, 0], periodicity = get_periodicity 3\<rparr> [1, 0, 1]
     = Inr [0, 0, 1] \<and>
   pull_back \<lparr>spacedim = 3, center = [0, 0, 0], periodicity = get_periodicity 3\<rparr> [0, 0, 1]
     = Inr [1, 0, 0] \<and>
   1 / 10 ^ 9 < \<bar>[1, 0, 1 :: real] ! 2 - [1, 0, 0] ! 2\<bar> \<and>
   push_forward \<lparr>spacedim = 2, center = [0, 0], periodicity = get_periodicity 2\<rparr> [1, - (pi / 2)]
     = Inr [0, - 1] \<and>
   pull_back \<lparr>spacedim = 2, center = [0, 0], periodicity = get_periodicity 2\<rparr> [0, - 1]
     = Inr [1, 3 * pi / 2]"
  by (simp add: push_forward_def pull_back_def Point_3 Point_2 pt_add_def pt_sub_def pt_norm_def
       atan2_def Let_def)

section \<open>The angles returned by pull_back\<close>

text \<open>
  C4. With \<open>x\<close> and \<open>y\<close> the first two coordinates relative to the centre, \<open>pull_back\<close>
  returns the angle \<open>a\<close> that is \<^verbatim>\<open>atan2(y, x)\<close>, increased by \<open>2\<pi>\<close> when negative: as the
  single angle in two dimensions and as the azimuth in three. It lies in \<open>[0, 2\<pi>)\<close>. The
  polar angle in three dimensions is the raw \<^verbatim>\<open>atan2\<close> value and lies in \<open>[0, \<pi>]\<close>. For
  \<open>x > 0\<close> and \<open>y < 0\<close> the raw value is negative and \<open>a = 3\<pi>/2 + arctan (x / -y)\<close>, above
  \<open>3\<pi>/2 = 2\<pi> - \<pi>/2\<close>; on the negative \<open>y\<close> axis the raw value is \<open>-\<pi>/2\<close> and \<open>a = 3\<pi>/2\<close>.
\<close>

theorem pull_back_normalized:
  assumes "length (center M) = spacedim M" and "length q = spacedim M"
  shows "let x = q ! 0 - center M ! 0;
             y = q ! 1 - center M ! 1;
             a = spec_normalized (atan2 y x)
         in (spacedim M = 2 \<longrightarrow> pull_back M q = Inr [pt_norm (pt_sub q (center M)), a]) \<and>
            (spacedim M = 3 \<longrightarrow>
               (let theta = atan2 (sqrt (x * x + y * y)) (q ! 2 - center M ! 2)
                in pull_back M q = Inr [pt_norm (pt_sub q (center M)), theta, a] \<and>
                   0 \<le> theta \<and> theta \<le> pi)) \<and>
            0 \<le> a \<and> a < 2 * pi \<and>
            (0 < x \<and> y < 0 \<longrightarrow>
               atan2 y x < 0 \<and> a = atan2 y x + 2 * pi \<and>
               a = 3 * pi / 2 + arctan (x / (- y)) \<and> 3 * pi / 2 < a) \<and>
            (x = 0 \<and> y < 0 \<longrightarrow> atan2 y x = - (pi / 2) \<and> a = 3 * pi / 2)"
proof -
  define x y where "x = q ! 0 - center M ! 0" and "y = q ! 1 - center M ! 1"
  define a where "a = spec_normalized (atan2 y x)"
  define theta where "theta = atan2 (sqrt (x * x + y * y)) (q ! 2 - center M ! 2)"
  have 2: "pull_back M q = Inr [pt_norm (pt_sub q (center M)), a]" if "spacedim M = 2"
    using that assms by (simp add: pull_back_2d a_def x_def y_def)
  have 3: "pull_back M q = Inr [pt_norm (pt_sub q (center M)), theta, a]" if "spacedim M = 3"
    using that assms by (simp add: pull_back_3d a_def x_def y_def theta_def)
  have th: "0 \<le> theta" "theta \<le> pi"
    using atan2_nonneg[of "sqrt (x * x + y * y)" "q ! 2 - center M ! 2"]
      atan2_bounds[of "sqrt (x * x + y * y)" "q ! 2 - center M ! 2"]
    by (simp_all add: theta_def)
  have r: "0 \<le> a" "a < 2 * pi"
    using normalized_atan2_range[of y x] by (simp_all add: a_def)
  have q4: "atan2 y x < 0 \<and> a = atan2 y x + 2 * pi \<and>
      a = 3 * pi / 2 + arctan (x / (- y)) \<and> 3 * pi / 2 < a" if "0 < x \<and> y < 0"
  proof -
    from that have xy: "0 < x" "y < 0" by simp_all
    then have "y / x < 0" by (simp add: divide_neg_pos)
    then have n: "atan2 y x < 0" using xy by (simp add: atan2_def)
    have e: "a = 3 * pi / 2 + arctan (x / (- y))"
      using that atan2_fourth_quadrant[of x y] by (simp add: a_def)
    have "0 < x / (- y)" using xy by (simp add: divide_pos_neg)
    then have "0 < arctan (x / (- y))" by (simp only: zero_less_arctan_iff)
    with n e show ?thesis by (simp add: a_def spec_normalized_def)
  qed
  have ax: "atan2 y x = - (pi / 2) \<and> a = 3 * pi / 2" if "x = 0 \<and> y < 0"
    using that by (simp add: a_def atan2_def spec_normalized_def)
  from 2 3 th r q4 ax show ?thesis
    unfolding Let_def x_def[symmetric] y_def[symmetric] a_def[symmetric] theta_def[symmetric]
    by blast
qed

text \<open>A point of the fourth quadrant in three dimensions, and one on the negative \<open>y\<close> axis.\<close>

theorem pull_back_normalized_witness:
  "pull_back \<lparr>spacedim = 3, center = [1, 1, 1], periodicity = get_periodicity 3\<rparr> [2, 0, 1]
     = Inr [sqrt 2, pi / 2, 7 * pi / 4] \<and>
   pull_back \<lparr>spacedim = 2, center = [1, 1], periodicity = get_periodicity 2\<rparr> [1, 0]
     = Inr [1, 3 * pi / 2]"
proof -
  have a: "arctan (- 1) = - (pi / 4)" by (simp add: arctan_minus arctan_one)
  have "spec_normalized (atan2 (- 1) 1) = 7 * pi / 4"
    by (simp add: spec_normalized_def atan2_def a)
  moreover have "atan2 (sqrt 2) 0 = pi / 2"
    by (simp add: atan2_def)
  moreover have "spec_normalized (atan2 (- 1) 0) = 3 * pi / 2"
    by (simp add: spec_normalized_def atan2_def)
  ultimately show ?thesis
    using pull_back_normalized
      [of "\<lparr>spacedim = 3, center = [1, 1, 1], periodicity = get_periodicity 3\<rparr>" "[2, 0, 1]"]
      pull_back_normalized
      [of "\<lparr>spacedim = 2, center = [1, 1], periodicity = get_periodicity 2\<rparr>" "[1, 0]"]
    by (simp add: Let_def pt_sub_def pt_norm_def)
qed

section \<open>The degenerate-origin rule\<close>

text \<open>
  C5. A chart point whose radius is at least 0 and not above the threshold \<open>10\<^sup>-\<^sup>1\<^sup>0\<close>
  is pushed forward to the centre of the chart, whatever its angular coordinates are:
  the guard \<^verbatim>\<open>rho > 1e-10\<close> skips the trigonometric branches.
\<close>

theorem push_forward_origin:
  assumes "length (center M) = spacedim M" and "2 \<le> spacedim M"
    and "0 \<le> p ! 0" and "p ! 0 \<le> 1 / 10 ^ 10"
  shows "push_forward M p = Inr (center M)"
  using assms by (rule push_forward_small)

theorem push_forward_origin_witness:
  "push_forward \<lparr>spacedim = 3, center = [1, 2, 3], periodicity = get_periodicity 3\<rparr>
     [1 / 10 ^ 11, 5, 7] = Inr [1, 2, 3]"
  using push_forward_origin
    [of "\<lparr>spacedim = 3, center = [1, 2, 3], periodicity = get_periodicity 3\<rparr>"
        "[1 / 10 ^ 11, 5, 7]"]
  by simp

section \<open>Rejection of invalid parameters\<close>

lemma find_zero_repetition: "0 \<in> set reps \<Longrightarrow> find (\<lambda>r. \<not> r \<ge> 1) reps = Some (0::nat)"
  by (induction reps) auto

lemma subdivided_hyper_rectangle_zero:
  assumes "0 \<in> set repetitions"
  shows "subdivided_hyper_rectangle dimension tria repetitions p1 p2 colorize =
           (Some (if length repetitions = dimension then ExcInvalidRepetitions 0
                  else ExcInvalidRepetitionsDimension dimension), tria)"
  unfolding subdivided_hyper_rectangle_def find_zero_repetition[OF assms] by simp

text \<open>
  C8. The routines reject invalid parameters and leave the triangulation as it was:
  \<open>subdivided_hyper_rectangle\<close> with an entry 0 among the repetitions fails with an
  exception of the kind \<open>InvalidArgument\<close>, which is \<open>ExcInvalidRepetitions\<close> when the
  vector has the right length; \<open>hyper_shell\<close>, in a dimension other than 1, with
  \<open>inner_radius \<ge> outer_radius\<close> fails with \<open>ExcInvalidRadii\<close>; and in dimension 1
  \<open>hyper_L\<close>, \<open>hyper_ball\<close>, \<open>hyper_shell\<close> and \<open>hyper_cube_slit\<close> fail with
  \<open>ExcImpossibleInDim\<close>, of the kind \<open>UnsupportedDimension\<close>.
\<close>

theorem invalid_parameters_rejected:
  "(0 \<in> set repetitions \<longrightarrow>
      (\<exists>e. subdivided_hyper_rectangle dimension tria repetitions p1 p2 colorize = (Some e, tria) \<and>
           kind_of e = InvalidArgument \<and>
           (length repetitions = dimension \<longrightarrow> e = ExcInvalidRepetitions 0))) \<and>
   (dimension \<noteq> 1 \<and> inner_radius \<ge> outer_radius \<longrightarrow>
      hyper_shell build_shell dimension tria origin inner_radius outer_radius n_cells
        = (Some ExcInvalidRadii, tria) \<and>
      kind_of ExcInvalidRadii = InvalidArgument) \<and>
   hyper_L build_L 1 tria left right = (Some (ExcImpossibleInDim 1), tria) \<and>
   hyper_ball build_ball 1 tria origin radius = (Some (ExcImpossibleInDim 1), tria) \<and>
   hyper_shell build_shell 1 tria origin inner_radius outer_radius n_cells
     = (Some (ExcImpossibleInDim 1), tria) \<and>
   hyper_cube_slit build_slit 1 tria left right colorize = (Some (ExcImpossibleInDim 1), tria) \<and>
   kind_of (ExcImpossibleInDim 1) = UnsupportedDimension"
  by (simp add: subdivided_hyper_rectangle_zero hyper_shell_def hyper_L_def
      hyper_ball_def hyper_cube_slit_def)

text \<open>Repetitions \<open>(2, 0)\<close> on a triangulation that holds a cell; a shell with radii 2 and 1.\<close>

theorem invalid_parameters_rejected_witness:
  "subdivided_hyper_rectangle 2 (grid [0, 0] [1, 1] [1, 1]) [2, 0] [0, 0] [1, 1] True
     = (Some (ExcInvalidRepetitions 0), grid [0, 0] [1, 1] [1, 1]) \<and>
   hyper_shell (\<lambda>c r R n. void) 2 void [0, 0] 2 1 0 = (Some ExcInvalidRadii, void)"
  using invalid_parameters_rejected
    [where repetitions = "[2, 0]" and dimension = 2 and tria = "grid [0, 0] [1, 1] [1, 1]"
       and ?p1.0 = "[0, 0]" and ?p2.0 = "[1, 1]" and colorize = True
       and inner_radius = 2 and outer_radius = 1 and build_shell = "\<lambda>c r R n. void"
       and origin = "[0, 0]" and n_cells = 0]
    invalid_parameters_rejected
    [where dimension = 2 and tria = void
       and inner_radius = 2 and outer_radius = 1 and build_shell = "\<lambda>c r R n. void"
       and origin = "[0, 0]" and n_cells = 0]
  by simp

section \<open>The Laplace transformation\<close>

lemma find_None_all: "find P xs = None \<longleftrightarrow> list_all (\<lambda>x. \<not> P x) xs"
  by (induction xs) auto

lemma find_Some_sat: "find P xs = Some x \<Longrightarrow> P x"
  by (induction xs) (auto split: if_splits)
lemma fold_update_other:
  "i \<notin> fst ` set m \<Longrightarrow> fold (\<lambda>(j, g) u. u[j := g]) m u ! i = u ! i"
  by (induction m arbitrary: u) auto

lemma fold_update_hit:
  "distinct (map fst m) \<Longrightarrow> (i, g) \<in> set m \<Longrightarrow> i < length u \<Longrightarrow>
     fold (\<lambda>(j, g) u. u[j := g]) m u ! i = g"
proof (induction m arbitrary: u)
  case Nil
  then show ?case by simp
next
  case (Cons a m)
  show ?case
  proof (cases "a = (i, g)")
    case True
    then have "i \<notin> fst ` set m" using Cons.prems(1) by auto
    then show ?thesis using True Cons.prems(3) by (simp add: fold_update_other)
  next
    case False
    then show ?thesis using Cons by (auto simp: case_prod_unfold)
  qed
qed

lemma length_fold_update: "length (fold (\<lambda>(j, g) u. u[j := g]) m u) = length u"
  by (induction m arbitrary: u) auto

lemma solver_within_fold_update:
  "solver_within (\<lambda>S m u. fold (\<lambda>(j, g) u. u[j := g]) m u) 0"
  unfolding solver_within_def
  by (auto simp: list_all_iff length_fold_update fold_update_hit)

text \<open>
  C7. With a solver that meets the Dirichlet data up to the tolerance \<open>tol\<close>, after
  \<open>laplace_transformation\<close> every coordinate of every constrained vertex is within \<open>tol\<close> of
  its target, and the cells, the boundary faces with their boundary ids and the material
  ids are unchanged: only vertex coordinates are modified.
\<close>

theorem laplace_transformation_frame:
  assumes "solver_within laplace_solve tol" and "dimension \<noteq> 1"
    and "distinct (map fst new_points)"
    and "list_all (\<lambda>(i, p). i < length (vertices tria)) new_points"
  shows "\<exists>tria'. laplace_transformation assemble laplace_solve dimension tria new_points
             = (None, tria') \<and>
           list_all (\<lambda>(i, p). list_all (\<lambda>k. \<bar>vertices tria' ! i ! k - p ! k\<bar> \<le> tol)
                                        [0..<dimension]) new_points \<and>
           length (vertices tria') = length (vertices tria) \<and>
           cells tria' = cells tria \<and> faces tria' = faces tria \<and>
           material_ids tria' = material_ids tria"
proof -
  let ?n = "length (vertices tria)"
  let ?m = "\<lambda>k. map (\<lambda>(i, p). (i, p ! k)) new_points"
  let ?u = "\<lambda>k. laplace_solve (assemble tria) (?m k) (replicate ?n 0)"
  let ?tria' = "tria\<lparr>vertices := map (\<lambda>v. map (\<lambda>k. ?u k ! v) [0..<dimension]) [0..<?n]\<rparr>"
  have nf: "find (\<lambda>(i, p). \<not> i < ?n) new_points = None"
    using assms(4) by (simp add: find_None_all list_all_iff case_prod_unfold)
  have 1: "laplace_transformation assemble laplace_solve dimension tria new_points = (None, ?tria')"
    using assms(2) nf by (simp add: laplace_transformation_def Let_def)
  have keys: "map fst (?m k) = map fst new_points" for k
    by (induction new_points) auto
  have ok: "list_all (\<lambda>(i, g). \<bar>?u k ! i - g\<bar> \<le> tol) (?m k)" for k
  proof -
    have "distinct (map fst (?m k))" using assms(3) by (simp only: keys)
    moreover have "list_all (\<lambda>(i, g). i < length (replicate ?n (0::real))) (?m k)"
      using assms(4) by (auto simp: list_all_iff)
    ultimately show ?thesis
      using assms(1) unfolding solver_within_def by blast
  qed
  have 2: "\<bar>vertices ?tria' ! i ! k - p ! k\<bar> \<le> tol"
    if "(i, p) \<in> set new_points" "k < dimension" for i p k
  proof -
    have i: "i < ?n" using that(1) assms(4) by (auto simp: list_all_iff)
    have "(i, p ! k) \<in> set (?m k)" using that(1) by force
    with ok[of k] have "\<bar>?u k ! i - p ! k\<bar> \<le> tol" by (auto simp: list_all_iff)
    then show ?thesis using i that(2) by simp
  qed
  have "list_all (\<lambda>(i, p). list_all (\<lambda>k. \<bar>vertices ?tria' ! i ! k - p ! k\<bar> \<le> tol)
                                        [0..<dimension]) new_points"
    unfolding list_all_iff using 2 by auto
  with 1 show ?thesis by simp
qed

text \<open>
  The unit square with all four vertices constrained, and a solver that writes the
  constraints into the start vector.
\<close>

theorem laplace_transformation_frame_witness:
  "\<exists>tria'. laplace_transformation (\<lambda>tria. ()) (\<lambda>S m u. fold (\<lambda>(j, g) u. u[j := g]) m u) 2
              (grid [0, 0] [1, 1] [1, 1]) [(0, [0, 0]), (1, [2, 0]), (2, [0, 2]), (3, [2, 3])]
            = (None, tria') \<and>
          \<bar>vertices tria' ! 3 ! 0 - 2\<bar> \<le> 0 \<and> \<bar>vertices tria' ! 3 ! 1 - 3\<bar> \<le> 0 \<and>
          cells tria' = cells (grid [0, 0] [1, 1] [1, 1]) \<and>
          faces tria' = faces (grid [0, 0] [1, 1] [1, 1])"
proof -
  let ?pts = "[(0, [0, 0]), (1, [2, 0]), (2, [0, 2]), (3, [2, 3])] :: (nat \<times> point) list"
  have d: "distinct (map fst ?pts)" by simp
  have r: "list_all (\<lambda>(i, p). i < length (vertices (grid [0, 0] [1, 1] [1, 1]))) ?pts"
    by (simp add: grid_def)
  have n: "(2::nat) \<noteq> 1" by simp
  have u: "[0..<2] = [0, 1]" by (simp add: upt_rec)
  from laplace_transformation_frame[OF solver_within_fold_update n d r, of "\<lambda>tria. ()"]
  obtain tria' where
    "laplace_transformation (\<lambda>tria. ()) (\<lambda>S m u. fold (\<lambda>(j, g) u. u[j := g]) m u) 2
              (grid [0, 0] [1, 1] [1, 1]) ?pts = (None, tria')"
    "list_all (\<lambda>(i, p). list_all (\<lambda>k. \<bar>vertices tria' ! i ! k - p ! k\<bar> \<le> 0) [0..<2]) ?pts"
    "cells tria' = cells (grid [0, 0] [1, 1] [1, 1])"
    "faces tria' = faces (grid [0, 0] [1, 1] [1, 1])"
    by blast
  then show ?thesis
    unfolding u by (intro exI[of _ tria']) simp
qed

section \<open>The colorization convention\<close>

lemma Cons_in_multi_indices:
  "i # rest \<in> set (multi_indices (n # ns)) \<longleftrightarrow> i < n \<and> rest \<in> set (multi_indices ns)"
  by (auto simp: image_iff)

lemma set_multi_indices:
  "set (multi_indices ns) = {m. length m = length ns \<and> (\<forall>k<length ns. m ! k < ns ! k)}"
proof (induction ns)
  case Nil
  then show ?case by auto
next
  case (Cons n ns)
  show ?case
  proof (intro set_eqI iffI)
    fix m assume "m \<in> set (multi_indices (n # ns))"
    then obtain i rest where m: "m = i # rest" "i < n" "rest \<in> set (multi_indices ns)"
      by auto
    then show "m \<in> {m. length m = length (n # ns) \<and> (\<forall>k<length (n # ns). m ! k < (n # ns) ! k)}"
      using Cons.IH by (auto simp: nth_Cons')
  next
    fix m assume h: "m \<in> {m. length m = length (n # ns) \<and> (\<forall>k<length (n # ns). m ! k < (n # ns) ! k)}"
    then obtain i rest where m: "m = i # rest" by (cases m) auto
    from h m have "i < n" by auto
    moreover have "rest \<in> set (multi_indices ns)"
    proof -
      have "rest ! k < ns ! k" if "k < length ns" for k
        using h m that by (auto dest: spec[of _ "Suc k"])
      then show ?thesis using h m Cons.IH by auto
    qed
    ultimately show "m \<in> set (multi_indices (n # ns))"
      using m by (simp only: Cons_in_multi_indices)
  qed
qed

lemma nth_concat_uniform:
  assumes "\<forall>xs\<in>set xss. length xs = n" and "j < length xss" and "i < n"
  shows "concat xss ! (i + n * j) = xss ! j ! i"
  using assms
proof (induction xss arbitrary: j)
  case Nil
  then show ?case by simp
next
  case (Cons xs xss)
  show ?case
  proof (cases j)
    case 0
    then show ?thesis using Cons.prems by (simp add: nth_append)
  next
    case (Suc j')
    have "i + n * Suc j' = length xs + (i + n * j')" using Cons.prems(1) by simp
    then show ?thesis using Suc Cons by (simp add: nth_append)
  qed
qed

lemma length_concat_uniform:
  "\<forall>xs\<in>set xss. length xs = n \<Longrightarrow> length (concat xss) = n * length xss"
  by (induction xss) auto

lemma length_multi_indices: "length (multi_indices ns) = prod_list ns"
proof (induction ns)
  case Nil
  then show ?case by simp
next
  case (Cons n ns)
  have "length (multi_indices (n # ns)) = n * length (multi_indices ns)"
    by (simp add: length_concat_uniform[where n = n])
  then show ?case using Cons by simp
qed

lemma flat_index_multi_indices:
  assumes "m \<in> set (multi_indices ns)"
  shows "flat_index ns m < length (multi_indices ns) \<and> multi_indices ns ! flat_index ns m = m"
  using assms
proof (induction ns arbitrary: m)
  case Nil
  then show ?case by simp
next
  case (Cons n ns)
  from Cons.prems obtain i rest where m: "m = i # rest" "i < n" "rest \<in> set (multi_indices ns)"
    by auto
  let ?xss = "map (\<lambda>rest. map (\<lambda>i. i # rest) [0..<n]) (multi_indices ns)"
  let ?j = "flat_index ns rest"
  from Cons.IH[OF m(3)] have j: "?j < length (multi_indices ns)" "multi_indices ns ! ?j = rest"
    by simp_all
  have u: "\<forall>xs\<in>set ?xss. length xs = n" by auto
  have "concat ?xss ! (i + n * ?j) = ?xss ! ?j ! i"
    using u j(1) m(2) by (intro nth_concat_uniform) simp_all
  also have "\<dots> = i # rest" using j m(2) by simp
  finally have 1: "multi_indices (n # ns) ! flat_index (n # ns) m = m"
    using m(1) by simp
  have "i + n * ?j < n * Suc ?j" using m(2) by simp
  also have "\<dots> \<le> n * length (multi_indices ns)"
    using j(1) by (intro mult_le_mono2) simp
  finally have 2: "flat_index (n # ns) m < length (multi_indices (n # ns))"
    using m(1) by (simp add: length_concat_uniform[OF u])
  from 1 2 show ?case by simp
qed

lemma in_offsets: "off \<in> set (offsets d) \<longleftrightarrow> length off = d \<and> (\<forall>k<d. off ! k < 2)"
  by (auto simp: offsets_def set_multi_indices)

lemma corner_in_vertices:
  assumes "c \<in> set (multi_indices reps)" and "off \<in> set (offsets (length reps))"
  shows "map2 (+) c off \<in> set (multi_indices (map Suc reps))"
proof -
  have c: "length c = length reps" "\<And>k. k < length reps \<Longrightarrow> c ! k < reps ! k"
    using assms(1) by (auto simp: set_multi_indices)
  have o: "length off = length reps" "\<And>k. k < length reps \<Longrightarrow> off ! k < 2"
    using assms(2) by (auto simp: in_offsets)
  have "map2 (+) c off ! k < map Suc reps ! k" if "k < length reps" for k
    using c(2)[OF that] o(2)[OF that] c(1) o(1) that by simp
  then show ?thesis using c(1) o(1) by (simp add: set_multi_indices)
qed

lemma vertex_coordinate:
  assumes "c \<in> set (multi_indices reps)" and "off \<in> set (offsets (length reps))"
    and "k < length reps"
  shows "vertices (grid lo hi reps) ! vertex_index reps c off ! k =
           lo ! k + real (c ! k + off ! k) * ((hi ! k - lo ! k) / real (reps ! k))"
proof -
  let ?m = "map2 (+) c off"
  have c: "length c = length reps" using assms(1) by (auto simp: set_multi_indices)
  have o: "length off = length reps" using assms(2) by (auto simp: in_offsets)
  from flat_index_multi_indices[OF corner_in_vertices[OF assms(1,2)]]
  have f: "flat_index (map Suc reps) ?m < length (multi_indices (map Suc reps))"
    "multi_indices (map Suc reps) ! flat_index (map Suc reps) ?m = ?m"
    by simp_all
  have "vertices (grid lo hi reps) ! vertex_index reps c off = grid_point lo hi reps ?m"
    using f by (simp add: grid_def vertex_index_def)
  then show ?thesis using assms(3) c o by (simp add: grid_point_def)
qed

lemma set_face_vertices:
  "set (face_vertices (cell_face reps c f)) =
     vertex_index reps c `
       {off \<in> set (offsets (length reps)). off ! (f div 2) = (if odd f then 1 else 0)}"
  by (auto simp: cell_face_def face_offsets_def)

lemma base_offset:
  assumes "k < d"
  shows "(replicate d 0)[k := s] \<in> set (offsets d) \<longleftrightarrow> s < 2"
  using assms by (auto simp: in_offsets nth_list_update)

lemma reps_positive:
  assumes "c \<in> set (multi_indices reps)" and "k < length reps"
  shows "0 < reps ! k"
  using assms by (auto simp: set_multi_indices)

lemma face_own_coordinate:
  assumes "c \<in> set (multi_indices reps)" and "f < 2 * length reps" and "at_boundary reps c f"
    and "i \<in> set (face_vertices (cell_face reps c f))"
  shows "vertices (grid lo hi reps) ! i ! (f div 2) = (if odd f then hi else lo) ! (f div 2)"
proof -
  let ?k = "f div 2"
  have k: "?k < length reps" using assms(2) by simp
  from assms(4) obtain off where off: "off \<in> set (offsets (length reps))"
    "off ! ?k = (if odd f then 1 else 0)" "i = vertex_index reps c off"
    by (auto simp: set_face_vertices)
  have pos: "0 < reps ! ?k" by (rule reps_positive[OF assms(1) k])
  have v: "vertices (grid lo hi reps) ! i ! ?k =
      lo ! ?k + real (c ! ?k + off ! ?k) * ((hi ! ?k - lo ! ?k) / real (reps ! ?k))"
    unfolding off(3) by (rule vertex_coordinate[OF assms(1) off(1) k])
  show ?thesis
  proof (cases "odd f")
    case True
    then have "c ! ?k + off ! ?k = reps ! ?k" using assms(3) off(2) by (simp add: at_boundary_def)
    then show ?thesis using True pos v by simp
  next
    case False
    then have "c ! ?k + off ! ?k = 0" using assms(3) off(2) by (simp add: at_boundary_def)
    then show ?thesis using False v by simp
  qed
qed

lemma face_other_coordinate:
  assumes "c \<in> set (multi_indices reps)" and "f < 2 * length reps"
    and "a < length reps" and "a \<noteq> f div 2"
  shows "\<exists>i j. i \<in> set (face_vertices (cell_face reps c f)) \<and>
           j \<in> set (face_vertices (cell_face reps c f)) \<and>
           vertices (grid lo hi reps) ! j ! a =
             vertices (grid lo hi reps) ! i ! a + (hi ! a - lo ! a) / real (reps ! a)"
proof -
  let ?k = "f div 2" and ?d = "length reps"
  let ?s = "if odd f then 1 else 0 :: nat"
  let ?o0 = "(replicate ?d 0)[?k := ?s]"
  let ?o1 = "?o0[a := 1]"
  have k: "?k < ?d" using assms(2) by simp
  have o0: "?o0 \<in> set (offsets ?d)" using k by (simp add: base_offset)
  have o1: "?o1 \<in> set (offsets ?d)"
    using k assms(3) by (auto simp: in_offsets nth_list_update)
  have s0: "?o0 ! ?k = ?s" using k by simp
  have s1: "?o1 ! ?k = ?s" using k assms(4) by simp
  have a0: "?o0 ! a = 0" using assms(3,4) by simp
  have a1: "?o1 ! a = 1" using assms(3) by simp
  let ?i = "vertex_index reps c ?o0" and ?j = "vertex_index reps c ?o1"
  have "?i \<in> set (face_vertices (cell_face reps c f))"
    unfolding set_face_vertices using o0 s0 by blast
  moreover have "?j \<in> set (face_vertices (cell_face reps c f))"
    unfolding set_face_vertices using o1 s1 by blast
  moreover have "vertices (grid lo hi reps) ! ?j ! a =
      vertices (grid lo hi reps) ! ?i ! a + (hi ! a - lo ! a) / real (reps ! a)"
    unfolding vertex_coordinate[OF assms(1) o0 assms(3)] vertex_coordinate[OF assms(1) o1 assms(3)]
      a0 a1
    by (simp add: distrib_right add_divide_distrib)
  ultimately show ?thesis by blast
qed

lemma face_nonempty:
  assumes "f < 2 * length reps"
  shows "face_vertices (cell_face reps c f) \<noteq> []"
proof -
  have "f div 2 < length reps" using assms by simp
  then have "(replicate (length reps) 0)[f div 2 := if odd f then 1 else 0] \<in>
      {off \<in> set (offsets (length reps)). off ! (f div 2) = (if odd f then 1 else 0)}"
    by (simp add: base_offset)
  then have "set (face_vertices (cell_face reps c f)) \<noteq> {}"
    unfolding set_face_vertices by blast
  then show ?thesis by auto
qed

lemma numbered_face_convention:
  assumes c: "c \<in> set (multi_indices reps)" and f: "f < 2 * length reps"
    and b: "at_boundary reps c f"
    and box: "\<forall>k<length reps. lo ! k < hi ! k"
    and T: "vertices T = vertices (grid lo hi reps)"
    and F: "face_vertices F = face_vertices (cell_face reps c f)" "boundary_id F = f"
    and k: "k < length reps"
  shows "(face_at T F k (lo ! k) \<longrightarrow> boundary_id F = 2 * k) \<and>
         (face_at T F k (hi ! k) \<longrightarrow> boundary_id F = 2 * k + 1)"
proof -
  have same_axis: "k = f div 2" if "face_at T F k x" for x
  proof (rule ccontr)
    assume "k \<noteq> f div 2"
    from face_other_coordinate[OF c f k this, of lo hi] obtain i j where
      ij: "i \<in> set (face_vertices F)" "j \<in> set (face_vertices F)"
      "vertices T ! j ! k = vertices T ! i ! k + (hi ! k - lo ! k) / real (reps ! k)"
      unfolding F T by blast
    have "0 < (hi ! k - lo ! k) / real (reps ! k)"
      using box k reps_positive[OF c k] by simp
    moreover have "vertices T ! j ! k = x" "vertices T ! i ! k = x"
      using that ij(1,2) by (auto simp: face_at_def list_all_iff)
    ultimately show False using ij(3) by simp
  qed
  obtain i where i: "i \<in> set (face_vertices (cell_face reps c f))"
    using face_nonempty[OF f, of c] by (cases "face_vertices (cell_face reps c f)") auto
  have own: "vertices T ! i ! (f div 2) = (if odd f then hi else lo) ! (f div 2)"
    unfolding T by (rule face_own_coordinate[OF c f b i])
  have lohi: "lo ! k \<noteq> hi ! k" using box k by auto
  have 1: "boundary_id F = 2 * k" if h: "face_at T F k (lo ! k)"
  proof -
    have e: "k = f div 2" by (rule same_axis[OF h])
    have "vertices T ! i ! k = lo ! k"
      using h i by (auto simp: face_at_def list_all_iff F)
    with own e lohi have "even f" by (auto split: if_splits)
    with e F(2) show ?thesis by auto
  qed
  have 2: "boundary_id F = 2 * k + 1" if h: "face_at T F k (hi ! k)"
  proof -
    have e: "k = f div 2" by (rule same_axis[OF h])
    have "vertices T ! i ! k = hi ! k"
      using h i by (auto simp: face_at_def list_all_iff F)
    with own e lohi have "odd f" by (auto split: if_splits)
    with e F(2) show ?thesis by (auto elim: oddE)
  qed
  from 1 2 show ?thesis by blast
qed

lemma numbered_face_at:
  assumes c: "c \<in> set (multi_indices reps)" and f: "f < 2 * length reps"
    and b: "at_boundary reps c f"
    and T: "vertices T = vertices (grid lo hi reps)"
    and F: "face_vertices F = face_vertices (cell_face reps c f)"
  shows "face_at T F (f div 2) ((if odd f then hi else lo) ! (f div 2))"
  unfolding face_at_def list_all_iff F T
  using face_own_coordinate[OF c f b] by blast

lemma multi_indices_ones: "multi_indices (replicate d (Suc 0)) = [replicate d 0]"
  by (induction d) simp_all

lemma faces_single_cell:
  "faces (grid lo hi (replicate d 1)) =
     map (cell_face (replicate d 1) (replicate d 0)) [0..<2 * d]"
proof -
  have "at_boundary (replicate d 1) (replicate d 0) f" if "f < 2 * d" for f
  proof -
    have "f div 2 < d" using that by simp
    then show ?thesis by (simp add: at_boundary_def)
  qed
  then have "filter (at_boundary (replicate d 1) (replicate d 0)) [0..<2 * d] = [0..<2 * d]"
    by (intro filter_True) simp
  then show ?thesis by (simp add: grid_def multi_indices_ones)
qed

lemma number_faces_map:
  "number_faces s (map g [s..<n]) = map (\<lambda>f. (g f)\<lparr>boundary_id := f\<rparr>) [s..<n]"
proof (induction "n - s" arbitrary: s)
  case 0
  then show ?case by simp
next
  case (Suc m)
  then have "s < n" by simp
  then have u: "[s..<n] = s # [Suc s..<n]" by (rule upt_conv_Cons)
  have "m = n - Suc s" using Suc.hyps(2) by simp
  from Suc.hyps(1)[OF this] show ?case by (simp add: u)
qed

lemma colorize_face_skip:
  assumes "\<forall>a\<in>set ks1. \<not> face_in_plane T F a (p1 ! a) eps \<and> \<not> face_in_plane T F a (p2 ! a) eps"
  shows "colorize_face T p1 p2 eps (ks1 @ ks) F = colorize_face T p1 p2 eps ks F"
  using assms by (induction ks1) simp_all

lemma face_not_in_other_plane:
  assumes c: "c \<in> set (multi_indices reps)" and f: "f < 2 * length reps"
    and a: "a < length reps" "a \<noteq> f div 2"
    and T: "vertices T = vertices (grid lo hi reps)"
    and F: "face_vertices F = face_vertices (cell_face reps c f)"
    and eps: "2 * eps \<le> (hi ! a - lo ! a) / real (reps ! a)"
  shows "\<not> face_in_plane T F a x eps"
proof
  assume h: "face_in_plane T F a x eps"
  from face_other_coordinate[OF c f a, of lo hi] obtain i j where
    ij: "i \<in> set (face_vertices F)" "j \<in> set (face_vertices F)"
    "vertices T ! j ! a = vertices T ! i ! a + (hi ! a - lo ! a) / real (reps ! a)"
    unfolding F T by blast
  have "\<bar>vertices T ! i ! a - x\<bar> < eps" "\<bar>vertices T ! j ! a - x\<bar> < eps"
    using h ij(1,2) by (auto simp: face_in_plane_def list_all_iff)
  then have "\<bar>vertices T ! j ! a - vertices T ! i ! a\<bar> < 2 * eps" by linarith
  with ij(3) eps show False by linarith
qed

lemma upt_split: "k < d \<Longrightarrow> [0..<d] = [0..<k] @ k # [Suc k..<d]"
  by (metis le_add1 less_imp_add_positive upt_add_eq_append upt_conv_Cons plus_nat.add_0)

lemma colorize_boundary_face:
  assumes c: "c \<in> set (multi_indices reps)" and f: "f < 2 * length reps"
    and b: "at_boundary reps c f"
    and box: "\<forall>k<length reps. lo ! k < hi ! k"
    and T: "vertices T = vertices (grid lo hi reps)"
    and eps: "0 < eps" "\<forall>a<length reps. 2 * eps \<le> (hi ! a - lo ! a) / real (reps ! a)"
  shows "colorize_face T lo hi eps [0..<length reps] (cell_face reps c f) =
           (cell_face reps c f)\<lparr>boundary_id := f\<rparr>"
proof -
  let ?F = "cell_face reps c f" and ?k = "f div 2"
  have k: "?k < length reps" using f by simp
  have skip: "\<forall>a\<in>set [0..<?k]. \<not> face_in_plane T ?F a (lo ! a) eps \<and>
      \<not> face_in_plane T ?F a (hi ! a) eps"
  proof
    fix a assume "a \<in> set [0..<?k]"
    then have a: "a < length reps" "a \<noteq> ?k" using k by auto
    have e: "2 * eps \<le> (hi ! a - lo ! a) / real (reps ! a)" using eps(2) a(1) by blast
    show "\<not> face_in_plane T ?F a (lo ! a) eps \<and> \<not> face_in_plane T ?F a (hi ! a) eps"
      using face_not_in_other_plane[OF c f a T refl e] by blast
  qed
  have own: "vertices T ! i ! ?k = (if odd f then hi else lo) ! ?k"
    if "i \<in> set (face_vertices ?F)" for i
    unfolding T by (rule face_own_coordinate[OF c f b that])
  have step: "colorize_face T lo hi eps [0..<length reps] ?F =
      colorize_face T lo hi eps (?k # [Suc ?k..<length reps]) ?F"
    unfolding upt_split[OF k] by (rule colorize_face_skip[OF skip])
  show ?thesis
  proof (cases "odd f")
    case False
    have "face_in_plane T ?F ?k (lo ! ?k) eps"
      using own False eps(1) by (simp add: face_in_plane_def list_all_iff)
    moreover have "2 * ?k = f" using False by simp
    ultimately show ?thesis unfolding step by simp
  next
    case True
    obtain i where i: "i \<in> set (face_vertices ?F)"
      using face_nonempty[OF f, of c] by (cases "face_vertices ?F") auto
    have pos: "0 < reps ! ?k" by (rule reps_positive[OF c k])
    have "(hi ! ?k - lo ! ?k) / real (reps ! ?k) \<le> hi ! ?k - lo ! ?k"
    proof -
      have "0 \<le> hi ! ?k - lo ! ?k" using box k by (simp add: less_imp_le)
      moreover have "1 \<le> real (reps ! ?k)" using pos by simp
      ultimately show ?thesis by (simp add: divide_le_eq mult_le_cancel_left1)
    qed
    then have far: "eps < hi ! ?k - lo ! ?k" using eps k by (smt (verit))
    have "\<not> \<bar>vertices T ! i ! ?k - lo ! ?k\<bar> < eps"
      using own[OF i] True far by simp
    then have "\<not> face_in_plane T ?F ?k (lo ! ?k) eps"
      using i by (auto simp: face_in_plane_def list_all_iff)
    moreover have "face_in_plane T ?F ?k (hi ! ?k) eps"
      using own True eps(1) by (simp add: face_in_plane_def list_all_iff)
    moreover have "2 * ?k + 1 = f" using True by (auto elim: oddE)
    ultimately show ?thesis unfolding step by simp
  qed
qed

lemma set_faces_grid:
  "set (faces (grid lo hi reps)) =
     {cell_face reps c f | c f.
        c \<in> set (multi_indices reps) \<and> f < 2 * length reps \<and> at_boundary reps c f}"
  by (auto simp: grid_def)

lemma zero_cell: "\<forall>r\<in>set reps. 1 \<le> r \<Longrightarrow> replicate (length reps) 0 \<in> set (multi_indices reps)"
  by (auto simp: set_multi_indices Suc_le_eq)

lemma last_cell: "\<forall>r\<in>set reps. 1 \<le> r \<Longrightarrow> map (\<lambda>n. n - 1) reps \<in> set (multi_indices reps)"
  by (auto simp: set_multi_indices Suc_le_eq)

lemma convention_of_numbered_faces:
  assumes reps: "\<forall>r\<in>set reps. 1 \<le> r" and len: "length lo = length reps"
    and box: "\<forall>k<length reps. lo ! k < hi ! k"
    and T: "vertices T = vertices (grid lo hi reps)"
    and faces: "set (faces T) =
      {(cell_face reps c f)\<lparr>boundary_id := f\<rparr> | c f.
         c \<in> set (multi_indices reps) \<and> f < 2 * length reps \<and> at_boundary reps c f}"
  shows "spec_colorized T lo hi"
proof -
  have 1: "(face_at T F k (lo ! k) \<longrightarrow> boundary_id F = 2 * k) \<and>
           (face_at T F k (hi ! k) \<longrightarrow> boundary_id F = 2 * k + 1)"
    if "F \<in> set (faces T)" "k < length reps" for F k
  proof -
    from that(1) obtain c f where cf: "F = (cell_face reps c f)\<lparr>boundary_id := f\<rparr>"
      "c \<in> set (multi_indices reps)" "f < 2 * length reps" "at_boundary reps c f"
      unfolding faces by blast
    show ?thesis
      by (rule numbered_face_convention[OF cf(2,3,4) box T _ _ that(2)]) (simp_all add: cf(1))
  qed
  have 2: "\<exists>F\<in>set (faces T). face_vertices F \<noteq> [] \<and> face_at T F k (lo ! k) \<and>
             boundary_id F = 2 * k" if k: "k < length reps" for k
  proof -
    let ?c = "replicate (length reps) 0"
    let ?F = "(cell_face reps ?c (2 * k))\<lparr>boundary_id := 2 * k\<rparr>"
    have c: "?c \<in> set (multi_indices reps)" by (rule zero_cell[OF reps])
    have f: "2 * k < 2 * length reps" using k by simp
    have b: "at_boundary reps ?c (2 * k)" using k by (simp add: at_boundary_def)
    have "?F \<in> set (faces T)" unfolding faces using c f b by blast
    moreover have "face_vertices ?F \<noteq> []" using face_nonempty[OF f, of ?c] by simp
    moreover have "face_at T ?F k (lo ! k)"
      using numbered_face_at[OF c f b T, where F = ?F] by simp
    ultimately show ?thesis by (intro bexI[of _ ?F]) simp_all
  qed
  have 3: "\<exists>F\<in>set (faces T). face_vertices F \<noteq> [] \<and> face_at T F k (hi ! k) \<and>
             boundary_id F = 2 * k + 1" if k: "k < length reps" for k
  proof -
    let ?c = "map (\<lambda>n. n - 1) reps"
    let ?F = "(cell_face reps ?c (2 * k + 1))\<lparr>boundary_id := 2 * k + 1\<rparr>"
    have c: "?c \<in> set (multi_indices reps)" by (rule last_cell[OF reps])
    have f: "2 * k + 1 < 2 * length reps" using k by simp
    have "1 \<le> reps ! k" using reps k by simp
    then have b: "at_boundary reps ?c (2 * k + 1)" using k by (simp add: at_boundary_def)
    have "?F \<in> set (faces T)" unfolding faces using c f b by blast
    moreover have "face_vertices ?F \<noteq> []" using face_nonempty[OF f, of ?c] by simp
    moreover have "face_at T ?F k (hi ! k)"
      using numbered_face_at[OF c f b T, where F = ?F] by simp
    ultimately show ?thesis by (intro bexI[of _ ?F]) simp_all
  qed
  show ?thesis
    unfolding spec_colorized_def list_all_iff list_ex_iff len
    using 1 2 3 by auto
qed

lemma corners_ordered:
  fixes p_1 p_2 :: point
  assumes "length p_1 = d" and "length p_2 = d" and "\<forall>k<d. p_1 ! k \<noteq> p_2 ! k"
  shows "length (map2 min p_1 p_2) = d" and "length (map2 max p_1 p_2) = d"
    and "\<forall>k<d. map2 min p_1 p_2 ! k < map2 max p_1 p_2 ! k"
proof -
  show "length (map2 min p_1 p_2) = d" "length (map2 max p_1 p_2) = d"
    using assms(1,2) by simp_all
  have "min a b < max a b" if "a \<noteq> b" for a b :: real
    using that by (simp add: min_def max_def)
  then show "\<forall>k<d. map2 min p_1 p_2 ! k < map2 max p_1 p_2 ! k"
    using assms by auto
qed

lemma hyper_rectangle_colorized:
  assumes "length lo = d" and "\<forall>k<d. lo ! k < hi ! k"
  shows "spec_colorized (colorize_hyper_rectangle (grid lo hi (replicate d 1))) lo hi"
proof (rule convention_of_numbered_faces[where reps = "replicate d 1"])
  let ?reps = "replicate d (1::nat)"
  show "\<forall>r\<in>set ?reps. 1 \<le> r" by simp
  show "length lo = length ?reps" using assms(1) by simp
  show "\<forall>k<length ?reps. lo ! k < hi ! k" using assms(2) by simp
  show "vertices (colorize_hyper_rectangle (grid lo hi ?reps)) = vertices (grid lo hi ?reps)"
    by (simp add: colorize_hyper_rectangle_def)
  have b: "at_boundary ?reps (replicate d 0) f" if "f < 2 * d" for f
  proof -
    have "f div 2 < d" using that by simp
    then show ?thesis by (simp add: at_boundary_def)
  qed
  have "faces (colorize_hyper_rectangle (grid lo hi ?reps)) =
      map (\<lambda>f. (cell_face ?reps (replicate d 0) f)\<lparr>boundary_id := f\<rparr>) [0..<2 * d]"
    by (simp only: colorize_hyper_rectangle_def faces_single_cell number_faces_map) simp
  then show "set (faces (colorize_hyper_rectangle (grid lo hi ?reps))) =
      {(cell_face ?reps c f)\<lparr>boundary_id := f\<rparr> | c f.
         c \<in> set (multi_indices ?reps) \<and> f < 2 * length ?reps \<and> at_boundary ?reps c f}"
    using b by (auto simp: multi_indices_ones)
qed

lemma min_list_bounds:
  fixes ds :: "real list"
  assumes "ds \<noteq> []" and "\<forall>x\<in>set ds. 0 < x"
  shows "0 < min_list ds" and "\<forall>x\<in>set ds. min_list ds \<le> x"
proof -
  have m: "min_list ds = Min (set ds)" by (rule min_list_Min[OF assms(1)])
  have "Min (set ds) \<in> set ds" using assms(1) by (intro Min_in) simp_all
  then show "0 < min_list ds" using assms(2) m by simp
  show "\<forall>x\<in>set ds. min_list ds \<le> x" using m by simp
qed

lemma subdivided_colorized:
  assumes reps: "\<forall>r\<in>set reps. 1 \<le> r" and len: "length lo = length reps"
    and box: "\<forall>k<length reps. lo ! k < hi ! k"
  shows "spec_colorized
           (colorize_subdivided_hyper_rectangle (grid lo hi reps) lo hi
              (min_list (map (\<lambda>k. (hi ! k - lo ! k) / real (reps ! k)) [0..<length reps]) / 100))
           lo hi"
proof (rule convention_of_numbered_faces[OF reps len box])
  let ?ds = "map (\<lambda>k. (hi ! k - lo ! k) / real (reps ! k)) [0..<length reps]"
  let ?eps = "min_list ?ds / 100"
  let ?G = "grid lo hi reps"
  show "vertices (colorize_subdivided_hyper_rectangle ?G lo hi ?eps) = vertices ?G"
    by (simp add: colorize_subdivided_hyper_rectangle_def)
  have col: "colorize_face ?G lo hi ?eps [0..<length reps] (cell_face reps c f) =
      (cell_face reps c f)\<lparr>boundary_id := f\<rparr>"
    if c: "c \<in> set (multi_indices reps)" and f: "f < 2 * length reps"
      and b: "at_boundary reps c f" for c f
  proof -
    have ne: "?ds \<noteq> []" using f by auto
    have pos: "\<forall>x\<in>set ?ds. 0 < x"
    proof
      fix x assume "x \<in> set ?ds"
      then obtain k where k: "k < length reps" "x = (hi ! k - lo ! k) / real (reps ! k)"
        by auto
      have "0 < reps ! k" using reps k(1) by (simp add: Suc_le_eq)
      then show "0 < x" using box k by simp
    qed
    have e1: "0 < ?eps" using min_list_bounds(1)[OF ne pos] by simp
    have e2: "\<forall>a<length reps. 2 * ?eps \<le> (hi ! a - lo ! a) / real (reps ! a)"
    proof (intro allI impI)
      fix a assume a: "a < length reps"
      then have "(hi ! a - lo ! a) / real (reps ! a) \<in> set ?ds" by auto
      then have "min_list ?ds \<le> (hi ! a - lo ! a) / real (reps ! a)"
        using min_list_bounds(2)[OF ne pos] by blast
      moreover have "2 * ?eps \<le> min_list ?ds" using min_list_bounds(1)[OF ne pos] by simp
      ultimately show "2 * ?eps \<le> (hi ! a - lo ! a) / real (reps ! a)" by linarith
    qed
    show ?thesis by (rule colorize_boundary_face[OF c f b box refl e1 e2])
  qed
  have "set (faces (colorize_subdivided_hyper_rectangle ?G lo hi ?eps)) =
      colorize_face ?G lo hi ?eps [0..<length reps] ` set (faces ?G)"
    by (simp add: colorize_subdivided_hyper_rectangle_def len)
  also have "\<dots> = {(cell_face reps c f)\<lparr>boundary_id := f\<rparr> | c f.
         c \<in> set (multi_indices reps) \<and> f < 2 * length reps \<and> at_boundary reps c f}"
  proof (intro set_eqI iffI)
    fix F assume "F \<in> colorize_face ?G lo hi ?eps [0..<length reps] ` set (faces ?G)"
    then obtain c f where cf: "c \<in> set (multi_indices reps)" "f < 2 * length reps"
      "at_boundary reps c f"
      and F: "F = colorize_face ?G lo hi ?eps [0..<length reps] (cell_face reps c f)"
      unfolding set_faces_grid by blast
    have "F = (cell_face reps c f)\<lparr>boundary_id := f\<rparr>"
      unfolding F by (rule col[OF cf])
    with cf show "F \<in> {(cell_face reps c f)\<lparr>boundary_id := f\<rparr> | c f.
         c \<in> set (multi_indices reps) \<and> f < 2 * length reps \<and> at_boundary reps c f}"
      by blast
  next
    fix F assume "F \<in> {(cell_face reps c f)\<lparr>boundary_id := f\<rparr> | c f.
         c \<in> set (multi_indices reps) \<and> f < 2 * length reps \<and> at_boundary reps c f}"
    then obtain c f where cf: "c \<in> set (multi_indices reps)" "f < 2 * length reps"
      "at_boundary reps c f"
      and F: "F = (cell_face reps c f)\<lparr>boundary_id := f\<rparr>"
      by blast
    have "cell_face reps c f \<in> set (faces ?G)"
      unfolding set_faces_grid using cf by blast
    moreover have "F = colorize_face ?G lo hi ?eps [0..<length reps] (cell_face reps c f)"
      unfolding F by (rule col[OF cf, symmetric])
    ultimately show "F \<in> colorize_face ?G lo hi ?eps [0..<length reps] ` set (faces ?G)"
      by (rule rev_image_eqI)
  qed
  finally show "set (faces (colorize_subdivided_hyper_rectangle ?G lo hi ?eps)) =
      {(cell_face reps c f)\<lparr>boundary_id := f\<rparr> | c f.
         c \<in> set (multi_indices reps) \<and> f < 2 * length reps \<and> at_boundary reps c f}" .
qed

lemma find_no_zero_repetition:
  "\<forall>r\<in>set reps. 1 \<le> r \<Longrightarrow> find (\<lambda>r. \<not> r \<ge> 1) reps = (None :: nat option)"
  by (induction reps) auto

lemma unit_square_colorized:
  "hyper_rectangle 2 void [0, 0] [1, 1] True =
     (None, \<lparr>vertices = [[0, 0], [1, 0], [0, 1], [1, 1]], cells = [[0, 1, 2, 3]],
             faces = [\<lparr>face_vertices = [0, 2], boundary_id = 0\<rparr>,
                      \<lparr>face_vertices = [1, 3], boundary_id = 1\<rparr>,
                      \<lparr>face_vertices = [0, 1], boundary_id = 2\<rparr>,
                      \<lparr>face_vertices = [2, 3], boundary_id = 3\<rparr>],
             material_ids = [0]\<rparr>)"
  by code_simp

lemma two_cells_colorized:
  "map boundary_id (faces (snd (subdivided_hyper_rectangle 2 void [2, 1] [0, 0] [1, 1] True)))
     = [0, 2, 3, 1, 2, 3]"
  by code_simp


text \<open>
  C9. For a box with corners that differ along every axis and an empty triangulation,
  \<open>hyper_rectangle\<close> with \<open>colorize = true\<close> builds a triangulation that keeps the
  convention: every boundary face at the minimum coordinate of axis \<open>k\<close> has the boundary
  id \<open>2k\<close>, every one at the maximum coordinate the id \<open>2k + 1\<close>, and such faces exist for
  every axis. So does \<open>subdivided_hyper_rectangle\<close>, for every vector of \<open>dim\<close> repetitions
  that are at least 1.
\<close>

theorem colorize_convention:
  assumes "length p_1 = dimension" and "length p_2 = dimension"
    and "\<forall>k<dimension. p_1 ! k \<noteq> p_2 ! k"
    and "vertices tria = []" and "cells tria = []"
  shows "(\<exists>T. hyper_rectangle dimension tria p_1 p_2 True = (None, T) \<and>
              spec_colorized T (map2 min p_1 p_2) (map2 max p_1 p_2)) \<and>
         (length repetitions = dimension \<and> (\<forall>r\<in>set repetitions. 1 \<le> r) \<longrightarrow>
            (\<exists>T. subdivided_hyper_rectangle dimension tria repetitions p_1 p_2 True = (None, T) \<and>
                 spec_colorized T (map2 min p_1 p_2) (map2 max p_1 p_2)))"
proof (intro conjI impI)
  note o = corners_ordered[OF assms(1,2,3)]
  show "\<exists>T. hyper_rectangle dimension tria p_1 p_2 True = (None, T) \<and>
              spec_colorized T (map2 min p_1 p_2) (map2 max p_1 p_2)"
    using hyper_rectangle_colorized[OF o(1) o(3)] assms(4,5)
    by (simp add: hyper_rectangle_def create_triangulation_def)
next
  note o = corners_ordered[OF assms(1,2,3)]
  assume r: "length repetitions = dimension \<and> (\<forall>r\<in>set repetitions. 1 \<le> r)"
  then have len: "length (map2 min p_1 p_2) = length repetitions" using o(1) by simp
  have box: "\<forall>k<length repetitions. map2 min p_1 p_2 ! k < map2 max p_1 p_2 ! k"
    using o(3) r by simp
  have nf: "find (\<lambda>r. \<not> r \<ge> 1) repetitions = None"
    using r by (intro find_no_zero_repetition) simp
  show "\<exists>T. subdivided_hyper_rectangle dimension tria repetitions p_1 p_2 True = (None, T) \<and>
                 spec_colorized T (map2 min p_1 p_2) (map2 max p_1 p_2)"
    unfolding subdivided_hyper_rectangle_def nf
    using subdivided_colorized[OF conjunct2[OF r] len box] assms(4,5) r
    by (simp add: create_triangulation_def Let_def)
qed

text \<open>
  The unit square: the face \<open>x = 0\<close> (vertices 0 and 2) has the id 0, \<open>x = 1\<close> the id 1,
  \<open>y = 0\<close> the id 2 and \<open>y = 1\<close> the id 3; and the unit square cut into two cells along
  \<open>x\<close>.
\<close>

theorem colorize_convention_witness:
  "(\<exists>T. hyper_rectangle 2 void [0, 0] [1, 1] True = (None, T) \<and>
        spec_colorized T [0, 0] [1, 1] \<and>
        vertices T = [[0, 0], [1, 0], [0, 1], [1, 1]] \<and>
        faces T = [\<lparr>face_vertices = [0, 2], boundary_id = 0\<rparr>,
                   \<lparr>face_vertices = [1, 3], boundary_id = 1\<rparr>,
                   \<lparr>face_vertices = [0, 1], boundary_id = 2\<rparr>,
                   \<lparr>face_vertices = [2, 3], boundary_id = 3\<rparr>]) \<and>
   (\<exists>T. subdivided_hyper_rectangle 2 void [2, 1] [0, 0] [1, 1] True = (None, T) \<and>
        spec_colorized T [0, 0] [1, 1] \<and>
        map boundary_id (faces T) = [0, 2, 3, 1, 2, 3])"
proof -
  have d: "\<forall>k<2. [0, 0 :: real] ! k \<noteq> [1, 1] ! k"
    by (simp add: less_2_cases_iff)
  have r: "length [2, 1 :: nat] = 2 \<and> (\<forall>r\<in>set [2, 1 :: nat]. 1 \<le> r)" by simp
  from colorize_convention[of "[0, 0]" 2 "[1, 1]" void "[2, 1]", OF _ _ d] r
  obtain T1 T2 where
    1: "hyper_rectangle 2 void [0, 0] [1, 1] True = (None, T1)"
       "spec_colorized T1 [0, 0] [1, 1]"
    and 2: "subdivided_hyper_rectangle 2 void [2, 1] [0, 0] [1, 1] True = (None, T2)"
       "spec_colorized T2 [0, 0] [1, 1]"
    by (auto simp: void_def)
  from 1 unit_square_colorized 2 two_cells_colorized show ?thesis by auto
qed

end
